theory Spec2Isabelle
  imports Complex_Main
begin

section \<open>Output memory\<close>

text \<open>
  A C character buffer is modelled as a total map from the index (relative to the
  pointer the caller passes) to the byte stored there.  A store \<open>out[i] = c\<close> is the
  function update \<open>out(i := c)\<close>; pointer arithmetic \<open>out + k\<close> is carried as an
  explicit base offset.  No function of the decoder ever reads the output buffer.
\<close>

type_synonym cbuf = "int \<Rightarrow> char"

definition zero_buf :: cbuf where
  "zero_buf = (\<lambda>_. CHR 0x00)"

section \<open>Morse table (morse\_table.c)\<close>

record morse_entry_t =
  pattern :: string
  ch :: char
  weight :: int

definition mk_entry :: "string \<Rightarrow> char \<Rightarrow> int \<Rightarrow> morse_entry_t" where
  "mk_entry p c w = \<lparr>pattern = p, ch = c, weight = w\<rparr>"

definition MORSE_TABLE :: "morse_entry_t list" where
  "MORSE_TABLE =
   [mk_entry ''.'' (CHR ''E'') 321,
    mk_entry ''-'' (CHR ''T'') 236,
    mk_entry ''..'' (CHR ''I'') 115,
    mk_entry ''.-'' (CHR ''A'') 127,
    mk_entry ''-.'' (CHR ''N'') 103,
    mk_entry ''--'' (CHR ''M'') 48,
    mk_entry ''...'' (CHR ''S'') 101,
    mk_entry ''..-'' (CHR ''U'') 48,
    mk_entry ''.-.'' (CHR ''R'') 84,
    mk_entry ''.--'' (CHR ''W'') 38,
    mk_entry ''-..'' (CHR ''D'') 68,
    mk_entry ''-.-'' (CHR ''K'') 17,
    mk_entry ''--.'' (CHR ''G'') 31,
    mk_entry ''---'' (CHR ''O'') 127,
    mk_entry ''....'' (CHR ''H'') 103,
    mk_entry ''...-'' (CHR ''V'') 16,
    mk_entry ''..-.'' (CHR ''F'') 37,
    mk_entry ''.-..'' (CHR ''L'') 66,
    mk_entry ''.--.'' (CHR ''P'') 31,
    mk_entry ''.---'' (CHR ''J'') 3,
    mk_entry ''-...'' (CHR ''B'') 25,
    mk_entry ''-..-'' (CHR ''X'') 3,
    mk_entry ''-.-.'' (CHR ''C'') 44,
    mk_entry ''-.--'' (CHR ''Y'') 32,
    mk_entry ''--..'' (CHR ''Z'') 2,
    mk_entry ''--.-'' (CHR ''Q'') 2,
    mk_entry ''.----'' (CHR ''1'') 10,
    mk_entry ''..---'' (CHR ''2'') 10,
    mk_entry ''...--'' (CHR ''3'') 10,
    mk_entry ''....-'' (CHR ''4'') 10,
    mk_entry ''.....'' (CHR ''5'') 10,
    mk_entry ''-....'' (CHR ''6'') 10,
    mk_entry ''--...'' (CHR ''7'') 10,
    mk_entry ''---..'' (CHR ''8'') 10,
    mk_entry ''----.'' (CHR ''9'') 10,
    mk_entry ''-----'' (CHR ''0'') 10,
    mk_entry ''.-.-.-'' (CHR ''.'') 5,
    mk_entry ''--..--'' (CHR '','') 5,
    mk_entry ''..--..'' (CHR ''?'') 5,
    mk_entry ''.----.'' (CHR 0x27) 3,
    mk_entry ''-.-.--'' (CHR ''!'') 3,
    mk_entry ''-..-.'' (CHR ''/'') 5,
    mk_entry ''-.--.'' (CHR ''('') 3,
    mk_entry ''-.--.-'' (CHR '')'') 3,
    mk_entry ''.-...'' (CHR ''&'') 3,
    mk_entry ''---...'' (CHR '':'') 3,
    mk_entry ''-.-.-.'' (CHR '';'') 3,
    mk_entry ''-...-'' (CHR ''='') 5,
    mk_entry ''.-.-.'' (CHR ''+'') 3,
    mk_entry ''-....-'' (CHR ''-'') 3,
    mk_entry ''..--.-'' (CHR ''_'') 3,
    mk_entry ''.-..-.'' (CHR 0x22) 3,
    mk_entry ''...-..-'' (CHR ''$'') 3,
    mk_entry ''.--.-.'' (CHR ''@'') 3]"

text \<open>The linear scan of \<open>morse_lookup\<close>: the first entry whose pattern compares equal.\<close>

fun lookup_scan :: "morse_entry_t list \<Rightarrow> string \<Rightarrow> char" where
  "lookup_scan [] p = CHR ''?''"
| "lookup_scan (e # es) p = (if pattern e = p then ch e else lookup_scan es p)"

definition morse_lookup :: "string \<Rightarrow> char" where
  "morse_lookup p = (if p = [] then CHR ''?'' else lookup_scan MORSE_TABLE p)"

text \<open>The linear scan of \<open>morse_char_weight\<close>: the first entry carrying the character.\<close>

fun weight_scan :: "morse_entry_t list \<Rightarrow> char \<Rightarrow> int" where
  "weight_scan [] c = 1"
| "weight_scan (e # es) c = (if ch e = c then weight e else weight_scan es c)"

definition morse_char_weight :: "char \<Rightarrow> int" where
  "morse_char_weight c = weight_scan MORSE_TABLE c"

text \<open>
  One iteration of the split loop of \<open>morse_lookup_merged\<close> at position \<open>pos\<close>:
  \<open>left_buf\<close> holds the first \<open>pos\<close> characters, \<open>right_buf\<close> the remaining ones.
  The triple is (\<open>best_weight\<close>, \<open>best_left\<close>, \<open>best_right\<close>).
\<close>

definition split_step :: "string \<Rightarrow> nat \<Rightarrow> int \<times> char \<times> char \<Rightarrow> int \<times> char \<times> char" where
  "split_step p pos best =
     (let lch = morse_lookup (take pos p);
          rch = morse_lookup (drop pos p)
      in if lch \<noteq> CHR ''?'' \<and> rch \<noteq> CHR ''?''
         then (let w = morse_char_weight lch + morse_char_weight rch
               in if w > fst best then (w, lch, rch) else best)
         else best)"

function split_loop :: "string \<Rightarrow> nat \<Rightarrow> nat \<Rightarrow> int \<times> char \<times> char \<Rightarrow> int \<times> char \<times> char" where
  "split_loop p len pos best =
     (if pos < len \<and> pos < 15 then split_loop p len (Suc pos) (split_step p pos best)
      else best)"
  by pat_completeness auto
termination
  by (relation "measure (\<lambda>(p, len, pos, best). len - pos)") auto

declare split_loop.simps [simp del]

text \<open>
  \<open>morse_lookup_merged(pattern, out, out_len)\<close>: the result is the returned count and
  the output buffer after the call.  \<open>pattern\<close> is the C string up to its terminator.
\<close>

definition morse_lookup_merged :: "string \<Rightarrow> cbuf \<Rightarrow> int \<Rightarrow> int \<times> cbuf" where
  "morse_lookup_merged p out out_len =
     (if p = [] \<or> out_len < 1 then (0, out)
      else let direct = morse_lookup p in
        if direct \<noteq> CHR ''?'' then (1, out(0 := direct))
        else let len = length p in
          if len \<le> 1 then (1, out(0 := CHR ''?''))
          else let best = split_loop p len 1 (-1, CHR 0x00, CHR 0x00) in
            if fst best \<ge> 0 \<and> out_len \<ge> 2
            then (2, out(0 := fst (snd best), 1 := snd (snd best)))
            else (1, out(0 := CHR ''?'')))"

section \<open>Single-precision arithmetic\<close>

text \<open>
  The C code computes in \<open>float\<close>.  The arithmetic is a parameter of the model: a record
  of the operations the code uses, over a carrier \<open>'f\<close>.  Every general theorem below
  holds for every such record, hence for IEEE-754 binary32 with whatever \<open>logf\<close> and
  \<open>expf\<close> the C library provides.  C's \<open>a > b\<close> is \<open>f_lt ops b a\<close> and \<open>a >= b\<close> is
  \<open>f_le ops b a\<close>.  \<open>f_lit ops m e\<close> is the \<open>float\<close> literal with the decimal value
  \<open>m * 10^e\<close>, \<open>f_of_int\<close> the conversion \<open>(float)i\<close> and \<open>f_to_int\<close> the conversion
  \<open>(int)x\<close>.
\<close>

record 'f float_ops =
  f_add :: "'f \<Rightarrow> 'f \<Rightarrow> 'f"
  f_sub :: "'f \<Rightarrow> 'f \<Rightarrow> 'f"
  f_mul :: "'f \<Rightarrow> 'f \<Rightarrow> 'f"
  f_div :: "'f \<Rightarrow> 'f \<Rightarrow> 'f"
  f_lt :: "'f \<Rightarrow> 'f \<Rightarrow> bool"
  f_le :: "'f \<Rightarrow> 'f \<Rightarrow> bool"
  f_lit :: "int \<Rightarrow> int \<Rightarrow> 'f"
  f_of_int :: "int \<Rightarrow> 'f"
  f_to_int :: "'f \<Rightarrow> int"
  f_fabs :: "'f \<Rightarrow> 'f"
  f_log :: "'f \<Rightarrow> 'f"
  f_exp :: "'f \<Rightarrow> 'f"
  f_sqrt :: "'f \<Rightarrow> 'f"
  f_ln2 :: "'f"
  f_pi :: "'f"

text \<open>
  The idealised instance: exact real arithmetic, used to run the model on concrete inputs.
\<close>

definition real_ops :: "real float_ops" where
  "real_ops =
     \<lparr>f_add = (+), f_sub = (-), f_mul = (*), f_div = (/),
      f_lt = (<), f_le = (\<le>),
      f_lit = (\<lambda>m e. if e \<ge> 0 then of_int m * 10 ^ nat e else of_int m / 10 ^ nat (- e)),
      f_of_int = of_int,
      f_to_int = (\<lambda>x. if x \<ge> 0 then \<lfloor>x\<rfloor> else - \<lfloor>- x\<rfloor>),
      f_fabs = abs, f_log = ln, f_exp = exp, f_sqrt = sqrt,
      f_ln2 = ln 2, f_pi = pi\<rparr>"

section \<open>Kalman timing estimator (kalman.c)\<close>

definition KALMAN_STATES :: int where "KALMAN_STATES = 5"
definition K_DIT :: int where "K_DIT = 0"
definition K_DAH :: int where "K_DAH = 1"
definition K_ELEM_SPACE :: int where "K_ELEM_SPACE = 2"
definition K_CHAR_SPACE :: int where "K_CHAR_SPACE = 3"
definition K_WORD_SPACE :: int where "K_WORD_SPACE = 4"

text \<open>
  \<open>kalman_t\<close>.  The arrays \<open>x[5]\<close>, \<open>P[5][5]\<close> and \<open>Q[5]\<close> are maps from the index;
  only the cells \<open>0 .. 4\<close> belong to the arrays, and no function below changes another.
\<close>

record 'f kalman_t =
  kx :: "int \<Rightarrow> 'f"
  kP :: "int \<Rightarrow> int \<Rightarrow> 'f"
  kQ :: "int \<Rightarrow> 'f"
  kR :: "'f"
  innovation_gate :: "'f"
  k_sample_rate :: int
  min_wpm :: "'f"
  max_wpm :: "'f"

definition in_states :: "int \<Rightarrow> bool" where
  "in_states i = (0 \<le> i \<and> i < KALMAN_STATES)"

definition kalman_reset :: "'f float_ops \<Rightarrow> 'f kalman_t \<Rightarrow> 'f \<Rightarrow> 'f kalman_t" where
  "kalman_reset ops k initial_wpm =
     (let dit_s = f_div ops (f_lit ops 12 (-1)) initial_wpm;
          dit_samples = f_mul ops dit_s (f_of_int ops (k_sample_rate k));
          x1 = (kx k)(K_DIT := f_log ops dit_samples);
          x2 = x1(K_DAH := f_log ops (f_mul ops dit_samples (f_lit ops 3 0)));
          x3 = x2(K_ELEM_SPACE := f_log ops dit_samples);
          x4 = x3(K_CHAR_SPACE := f_log ops (f_mul ops dit_samples (f_lit ops 3 0)));
          x5 = x4(K_WORD_SPACE := f_log ops (f_mul ops dit_samples (f_lit ops 7 0)))
      in k\<lparr>kx := x5,
            kP := (\<lambda>i j. if in_states i \<and> in_states j
                          then (if i = j then f_lit ops 1 (-1) else f_lit ops 0 0)
                          else kP k i j)\<rparr>)"

text \<open>\<open>memset(k, 0, sizeof *k)\<close>: every field is the all-zero bit pattern.\<close>

definition kalman_zero :: "'f float_ops \<Rightarrow> 'f kalman_t" where
  "kalman_zero ops =
     \<lparr>kx = (\<lambda>_. f_lit ops 0 0), kP = (\<lambda>_ _. f_lit ops 0 0), kQ = (\<lambda>_. f_lit ops 0 0),
      kR = f_lit ops 0 0, innovation_gate = f_lit ops 0 0, k_sample_rate = 0,
      min_wpm = f_lit ops 0 0, max_wpm = f_lit ops 0 0\<rparr>"

definition kalman_init :: "'f float_ops \<Rightarrow> int \<Rightarrow> 'f \<Rightarrow> 'f \<Rightarrow> 'f \<Rightarrow> 'f kalman_t" where
  "kalman_init ops sample_rate initial_wpm mn mx =
     kalman_reset ops
       ((kalman_zero ops)
          \<lparr>k_sample_rate := sample_rate, min_wpm := mn, max_wpm := mx,
           kR := f_lit ops 1 (-1), innovation_gate := f_ln2 ops,
           kQ := (\<lambda>i. if in_states i then f_lit ops 1 (-2) else f_lit ops 0 0)\<rparr>)
       initial_wpm"

text \<open>One clamp \<open>if (v < lo) v = lo; if (v > hi) v = hi;\<close> of \<open>apply_bounds\<close>.\<close>

definition clamp2 :: "'f float_ops \<Rightarrow> 'f \<Rightarrow> 'f \<Rightarrow> 'f \<Rightarrow> 'f" where
  "clamp2 ops lo hi v =
     (let v1 = (if f_lt ops v lo then lo else v)
      in if f_lt ops hi v1 then hi else v1)"

definition apply_bounds :: "'f float_ops \<Rightarrow> 'f kalman_t \<Rightarrow> 'f kalman_t" where
  "apply_bounds ops k =
     (let min_dit = f_mul ops (f_div ops (f_lit ops 12 (-1)) (max_wpm k)) (f_of_int ops (k_sample_rate k));
          max_dit = f_mul ops (f_div ops (f_lit ops 12 (-1)) (min_wpm k)) (f_of_int ops (k_sample_rate k));
          log_min = f_log ops min_dit;
          log_max = f_log ops max_dit;
          x1 = (kx k)(K_DIT := clamp2 ops log_min log_max (kx k K_DIT));
          ld = x1 K_DIT;
          dah_lo = f_add ops ld (f_log ops (f_lit ops 2 0));
          dah_hi = f_add ops ld (f_log ops (f_lit ops 4 0));
          x2 = x1(K_DAH := clamp2 ops dah_lo dah_hi (x1 K_DAH));
          es_lo = f_sub ops ld (f_ln2 ops);
          es_hi = f_add ops ld (f_ln2 ops);
          x3 = x2(K_ELEM_SPACE := clamp2 ops es_lo es_hi (x2 K_ELEM_SPACE));
          cs_lo = f_add ops ld (f_log ops (f_lit ops 2 0));
          cs_hi = f_add ops ld (f_log ops (f_lit ops 4 0));
          x4 = x3(K_CHAR_SPACE := clamp2 ops cs_lo cs_hi (x3 K_CHAR_SPACE));
          ws_lo = f_add ops ld (f_log ops (f_lit ops 5 0));
          ws_hi = f_add ops ld (f_log ops (f_lit ops 9 0));
          x5 = x4(K_WORD_SPACE := clamp2 ops ws_lo ws_hi (x4 K_WORD_SPACE))
      in k\<lparr>kx := x5\<rparr>)"

text \<open>
  \<open>kalman_update\<close>: the returned flag and the state after the call.  The loops over
  \<open>i\<close> and \<open>j\<close> read only the old \<open>P\<close> and the gain vector \<open>K\<close>, so each cell is
  given by its own expression.
\<close>

definition kalman_update :: "'f float_ops \<Rightarrow> 'f kalman_t \<Rightarrow> int \<Rightarrow> 'f \<Rightarrow> int \<times> 'f kalman_t" where
  "kalman_update ops k state_idx duration_samples =
     (if state_idx < 0 \<or> state_idx \<ge> KALMAN_STATES then (0, k)
      else if f_le ops duration_samples (f_lit ops 0 0) then (0, k)
      else
        let z = f_log ops duration_samples;
            innovation = f_sub ops z (kx k state_idx)
        in if f_lt ops (innovation_gate k) (f_fabs ops innovation) then (0, k)
           else
             let idx = state_idx;
                 S0 = f_add ops (kP k idx idx) (kR k);
                 S = (if f_lt ops S0 (f_lit ops 1 (-10)) then f_lit ops 1 (-10) else S0);
                 K = (\<lambda>i. f_div ops (kP k i idx) S);
                 x' = (\<lambda>i. if in_states i
                            then f_add ops (kx k i) (f_mul ops (K i) innovation)
                            else kx k i);
                 P_new = (\<lambda>i j.
                    let ikh_P = f_sub ops (kP k i j) (f_mul ops (K i) (kP k idx j));
                        joseph = f_add ops (f_sub ops ikh_P (f_mul ops (kP k i idx) (K j)))
                                   (f_mul ops (f_mul ops (K i) (kP k idx idx)) (K j))
                    in f_add ops joseph (f_mul ops (f_mul ops (K i) (kR k)) (K j)));
                 P' = (\<lambda>i j. if in_states i \<and> in_states j
                              then (if i = j then f_add ops (P_new i j) (kQ k i) else P_new i j)
                              else kP k i j)
             in (1, apply_bounds ops (k\<lparr>kx := x', kP := P'\<rparr>)))"

definition kalman_get_duration :: "'f float_ops \<Rightarrow> 'f kalman_t \<Rightarrow> int \<Rightarrow> 'f" where
  "kalman_get_duration ops k state_idx =
     (if state_idx < 0 \<or> state_idx \<ge> KALMAN_STATES then f_lit ops 0 0
      else f_exp ops (kx k state_idx))"

definition kalman_get_threshold :: "'f float_ops \<Rightarrow> 'f kalman_t \<Rightarrow> int \<Rightarrow> int \<Rightarrow> 'f" where
  "kalman_get_threshold ops k state_a state_b =
     f_exp ops (f_div ops (f_add ops (kx k state_a) (kx k state_b)) (f_lit ops 2 0))"

section \<open>Timing classifier (timing.c)\<close>

datatype timing_mode_t = TIMING_MODE_EMA | TIMING_MODE_KALMAN

definition TIMING_KALMAN_WARMUP :: int where "TIMING_KALMAN_WARMUP = 8"
definition ELEM_NONE :: int where "ELEM_NONE = 0"
definition ELEM_DIT :: int where "ELEM_DIT = of_char (CHR ''.'')"
definition ELEM_DAH :: int where "ELEM_DAH = of_char (CHR ''-'')"
definition ELEM_CHAR :: int where "ELEM_CHAR = of_char (CHR ''C'')"
definition ELEM_WORD :: int where "ELEM_WORD = of_char (CHR ''W'')"

record 'f timing_t =
  mode :: timing_mode_t
  t_sample_rate :: int
  t_kalman :: "'f kalman_t"
  avg_dit :: "'f"
  ema_alpha :: "'f"
  dit_dah_threshold :: "'f"
  char_pause_ratio :: "'f"
  word_pause_ratio :: "'f"
  min_element_ratio :: "'f"
  min_element_abs :: int
  on_dur :: int
  off_dur :: int
  prev_on :: int
  seen_signal :: int
  element_count :: int

definition timing_init ::
  "'f float_ops \<Rightarrow> timing_mode_t \<Rightarrow> int \<Rightarrow> 'f \<Rightarrow> 'f \<Rightarrow> 'f \<Rightarrow> 'f \<Rightarrow> 'f \<Rightarrow> 'f timing_t" where
  "timing_init ops m sample_rate initial_wpm mn mx ratio min_element_s =
     \<lparr>mode = m, t_sample_rate = sample_rate,
      t_kalman = (if m = TIMING_MODE_KALMAN then kalman_init ops sample_rate initial_wpm mn mx
                else kalman_zero ops),
      avg_dit = f_mul ops (f_div ops (f_lit ops 12 (-1)) initial_wpm) (f_of_int ops sample_rate),
      ema_alpha = f_lit ops 1 (-1),
      dit_dah_threshold = f_lit ops 2 0,
      char_pause_ratio = f_lit ops 25 (-1),
      word_pause_ratio = f_lit ops 6 0,
      min_element_ratio = ratio,
      min_element_abs = f_to_int ops (f_mul ops min_element_s (f_of_int ops sample_rate)),
      on_dur = 0, off_dur = 0, prev_on = 0, seen_signal = 0, element_count = 0\<rparr>"

definition classify_signal_kalman :: "'f float_ops \<Rightarrow> 'f timing_t \<Rightarrow> int \<Rightarrow> int \<times> 'f timing_t" where
  "classify_signal_kalman ops t dur =
     (let avg = kalman_get_duration ops (t_kalman t) K_DIT;
          min_dur0 = f_to_int ops (f_mul ops avg (min_element_ratio t));
          min_dur = (if min_dur0 < min_element_abs t then min_element_abs t else min_dur0)
      in if dur < min_dur then (ELEM_NONE, t)
         else
           let t1 = t\<lparr>element_count := element_count t + 1\<rparr>;
               warm = (element_count t1 > TIMING_KALMAN_WARMUP);
               thresh = kalman_get_threshold ops (t_kalman t1) K_DIT K_DAH
           in if f_lt ops (f_of_int ops dur) thresh
              then (ELEM_DIT,
                    if warm then t1\<lparr>t_kalman := snd (kalman_update ops (t_kalman t1) K_DIT (f_of_int ops dur))\<rparr>
                    else t1)
              else (ELEM_DAH,
                    if warm then t1\<lparr>t_kalman := snd (kalman_update ops (t_kalman t1) K_DAH (f_of_int ops dur))\<rparr>
                    else t1))"

definition classify_signal_ema :: "'f float_ops \<Rightarrow> 'f timing_t \<Rightarrow> int \<Rightarrow> int \<times> 'f timing_t" where
  "classify_signal_ema ops t dur =
     (let min_dur0 = f_to_int ops (f_mul ops (avg_dit t) (min_element_ratio t));
          min_dur = (if min_dur0 < min_element_abs t then min_element_abs t else min_dur0)
      in if dur < min_dur then (ELEM_NONE, t)
         else
           let thresh = f_mul ops (avg_dit t) (dit_dah_threshold t)
           in if f_lt ops (f_of_int ops dur) thresh
              then (ELEM_DIT,
                    t\<lparr>avg_dit := f_add ops
                        (f_mul ops (f_sub ops (f_lit ops 1 0) (ema_alpha t)) (avg_dit t))
                        (f_mul ops (ema_alpha t) (f_of_int ops dur))\<rparr>)
              else (ELEM_DAH, t))"

definition classify_gap_kalman :: "'f float_ops \<Rightarrow> 'f timing_t \<Rightarrow> int \<Rightarrow> int \<times> 'f timing_t" where
  "classify_gap_kalman ops t dur =
     (let warm = (element_count t > TIMING_KALMAN_WARMUP);
          word_thresh = kalman_get_threshold ops (t_kalman t) K_CHAR_SPACE K_WORD_SPACE;
          char_thresh = kalman_get_threshold ops (t_kalman t) K_ELEM_SPACE K_CHAR_SPACE
      in if f_le ops word_thresh (f_of_int ops dur)
         then (ELEM_WORD,
               if warm then t\<lparr>t_kalman := snd (kalman_update ops (t_kalman t) K_WORD_SPACE (f_of_int ops dur))\<rparr>
               else t)
         else if f_le ops char_thresh (f_of_int ops dur)
         then (ELEM_CHAR,
               if warm then t\<lparr>t_kalman := snd (kalman_update ops (t_kalman t) K_CHAR_SPACE (f_of_int ops dur))\<rparr>
               else t)
         else (ELEM_NONE,
               if warm then t\<lparr>t_kalman := snd (kalman_update ops (t_kalman t) K_ELEM_SPACE (f_of_int ops dur))\<rparr>
               else t))"

definition classify_gap_ema :: "'f float_ops \<Rightarrow> 'f timing_t \<Rightarrow> int \<Rightarrow> int \<times> 'f timing_t" where
  "classify_gap_ema ops t dur =
     (let word_thresh = f_mul ops (avg_dit t) (word_pause_ratio t);
          char_thresh = f_mul ops (avg_dit t) (char_pause_ratio t)
      in if f_le ops word_thresh (f_of_int ops dur) then (ELEM_WORD, t)
         else if f_le ops char_thresh (f_of_int ops dur) then (ELEM_CHAR, t)
         else (ELEM_NONE, t))"

text \<open>
  \<open>timing_process_sample\<close> in its three stages: the run counters, the block guarded by
  \<open>t->prev_on && !on\<close>, and the block guarded by \<open>!t->prev_on && on\<close>.  Each stage takes
  the state the previous one left and the pending \<open>result\<close>.
\<close>

definition count_sample :: "'f timing_t \<Rightarrow> int \<Rightarrow> 'f timing_t" where
  "count_sample t on =
     (if on \<noteq> 0 then t\<lparr>on_dur := on_dur t + 1\<rparr> else t\<lparr>off_dur := off_dur t + 1\<rparr>)"

definition mark_guard :: "'f timing_t \<Rightarrow> int \<Rightarrow> bool" where
  "mark_guard t on = (prev_on t \<noteq> 0 \<and> \<not> on \<noteq> 0)"

definition gap_guard :: "'f timing_t \<Rightarrow> int \<Rightarrow> bool" where
  "gap_guard t on = (\<not> prev_on t \<noteq> 0 \<and> on \<noteq> 0)"

definition mark_block :: "'f float_ops \<Rightarrow> 'f timing_t \<Rightarrow> int \<Rightarrow> int \<Rightarrow> int \<times> 'f timing_t" where
  "mark_block ops t on result =
     (if mark_guard t on
      then (let (r, t1) = (if mode t = TIMING_MODE_KALMAN
                           then classify_signal_kalman ops t (on_dur t)
                           else classify_signal_ema ops t (on_dur t))
            in (r, t1\<lparr>on_dur := 0, seen_signal := 1\<rparr>))
      else (result, t))"

definition gap_block :: "'f float_ops \<Rightarrow> 'f timing_t \<Rightarrow> int \<Rightarrow> int \<Rightarrow> int \<times> 'f timing_t" where
  "gap_block ops t on result =
     (if gap_guard t on
      then (let (r, t1) =
                  (if seen_signal t \<noteq> 0
                   then (let (gap_result, t') = (if mode t = TIMING_MODE_KALMAN
                                                 then classify_gap_kalman ops t (off_dur t)
                                                 else classify_gap_ema ops t (off_dur t))
                         in (if gap_result \<noteq> ELEM_NONE then gap_result else result, t'))
                   else (result, t))
            in (r, t1\<lparr>off_dur := 0\<rparr>))
      else (result, t))"

definition timing_process_sample :: "'f float_ops \<Rightarrow> 'f timing_t \<Rightarrow> int \<Rightarrow> int \<times> 'f timing_t" where
  "timing_process_sample ops t on =
     (let t0 = count_sample t on;
          (r1, t1) = mark_block ops t0 on ELEM_NONE;
          (r2, t2) = gap_block ops t1 on r1
      in (r2, t2\<lparr>prev_on := on\<rparr>))"

definition timing_finalize :: "'f float_ops \<Rightarrow> 'f timing_t \<Rightarrow> int \<times> 'f timing_t" where
  "timing_finalize ops t =
     (if on_dur t > 0 \<and> seen_signal t \<noteq> 0
      then (let (r, t1) = (if mode t = TIMING_MODE_KALMAN
                           then classify_signal_kalman ops t (on_dur t)
                           else classify_signal_ema ops t (on_dur t))
            in (r, t1\<lparr>on_dur := 0\<rparr>))
      else (ELEM_NONE, t))"

definition timing_reset :: "'f float_ops \<Rightarrow> 'f timing_t \<Rightarrow> 'f \<Rightarrow> 'f timing_t" where
  "timing_reset ops t initial_wpm =
     (let t1 = t\<lparr>avg_dit := f_mul ops (f_div ops (f_lit ops 12 (-1)) initial_wpm)
                              (f_of_int ops (t_sample_rate t)),
                 on_dur := 0, off_dur := 0, prev_on := 0, seen_signal := 0, element_count := 0\<rparr>
      in if mode t1 = TIMING_MODE_KALMAN
         then t1\<lparr>t_kalman := kalman_reset ops (t_kalman t1) initial_wpm\<rparr>
         else t1)"

section \<open>Cascaded moving average (multipass\_avg.c)\<close>

definition MULTIPASS_MAX_PASSES :: int where "MULTIPASS_MAX_PASSES = 8"
definition MULTIPASS_MAX_WINDOW :: int where "MULTIPASS_MAX_WINDOW = 256"

text \<open>
  \<open>multipass_avg_t\<close>; a \<open>float\<close> array is a map from the index.
\<close>

type_synonym 'f farray = "int \<Rightarrow> 'f"

record 'f multipass_avg_t =
  n_passes :: int
  window_size :: int
  buffers :: "int \<Rightarrow> 'f farray"
  buf_len :: "int \<Rightarrow> int"
  running_sum :: "int \<Rightarrow> 'f"

definition multipass_init :: "'f float_ops \<Rightarrow> int \<Rightarrow> int \<Rightarrow> 'f multipass_avg_t" where
  "multipass_init ops passes window =
     (let np1 = (if passes < 1 then 1 else passes);
          np2 = (if np1 > MULTIPASS_MAX_PASSES then MULTIPASS_MAX_PASSES else np1);
          w1 = (if window < 3 then 3 else window);
          w2 = (if w1 > MULTIPASS_MAX_WINDOW then MULTIPASS_MAX_WINDOW else w1);
          w3 = (if w2 mod 2 = 0 then w2 + 1 else w2)
      in \<lparr>n_passes = np2, window_size = w3,
          buffers = (\<lambda>_ _. f_lit ops 0 0), buf_len = (\<lambda>_. 0),
          running_sum = (\<lambda>_. f_lit ops 0 0)\<rparr>)"

text \<open>
  The sample loop of one pass: \<open>data\<close> is overwritten in place, so \<open>data[oldest_idx]\<close>
  and \<open>data[0]\<close> read what earlier iterations stored.
\<close>

function mp_sample_loop ::
  "'f float_ops \<Rightarrow> int \<Rightarrow> 'f \<Rightarrow> 'f farray \<Rightarrow> int \<Rightarrow> int \<Rightarrow> int \<Rightarrow> 'f \<Rightarrow> 'f farray \<Rightarrow> 'f \<times> 'f farray" where
  "mp_sample_loop ops w inv_w buf buf_n n i rsum data =
     (if i < n then
        (let sum1 = f_add ops rsum (data i);
             oldest_idx = i - w;
             sum2 = (if oldest_idx \<ge> 0 then f_sub ops sum1 (data oldest_idx)
                     else (let buf_idx = buf_n + oldest_idx
                           in if buf_idx \<ge> 0 \<and> buf_idx < buf_n
                              then f_sub ops sum1 (buf buf_idx)
                              else f_sub ops sum1 (data 0)))
         in mp_sample_loop ops w inv_w buf buf_n n (i + 1) sum2 (data(i := f_mul ops sum2 inv_w)))
      else (rsum, data))"
  by pat_completeness auto
termination
  by (relation "measure (\<lambda>(ops, w, inv_w, buf, buf_n, n, i, rsum, data). nat (n - i))") auto

declare mp_sample_loop.simps [simp del]

text \<open>
  One pass of \<open>multipass_process\<close>.  The copy loops that save the tail of the chunk move
  cells between distinct ranges, so they are given cell by cell.
\<close>

definition mp_pass :: "'f float_ops \<Rightarrow> 'f multipass_avg_t \<Rightarrow> int \<Rightarrow> 'f farray \<Rightarrow> int \<Rightarrow> 'f multipass_avg_t \<times> 'f farray" where
  "mp_pass ops mp pass data n =
     (let w = window_size mp;
          inv_w = f_div ops (f_lit ops 1 0) (f_of_int ops w);
          buf = buffers mp pass;
          buf_n = buf_len mp pass;
          sum0 = (if buf_n = 0 \<and> n > 0 then f_mul ops (data 0) (f_of_int ops (w - 1))
                  else running_sum mp pass);
          (rsum, data') = mp_sample_loop ops w inv_w buf buf_n n 0 sum0 data;
          save1 = (if w - 1 > n then n else w - 1);
          save_n = (if save1 > MULTIPASS_MAX_WINDOW then MULTIPASS_MAX_WINDOW else save1);
          (buf', len') =
            (if n \<ge> w - 1
             then ((\<lambda>j. if 0 \<le> j \<and> j < save_n then data' (n - save_n + j) else buf j), save_n)
             else (let keep = (if buf_n - n < 0 then 0 else buf_n - n);
                       shifted = (\<lambda>j. if 0 \<le> j \<and> j < keep then buf (buf_n - keep + j) else buf j);
                       appended = (\<lambda>m. if keep \<le> m \<and> m < keep + n \<and> m < MULTIPASS_MAX_WINDOW
                                         then data' (m - keep) else shifted m);
                       l = keep + n
                   in (appended, if l > save_n then save_n else l)))
      in (mp\<lparr>buffers := (buffers mp)(pass := buf'),
              buf_len := (buf_len mp)(pass := len'),
              running_sum := (running_sum mp)(pass := rsum)\<rparr>, data'))"

lemma mp_pass_n_passes: "n_passes (fst (mp_pass ops mp pass data n)) = n_passes mp"
  by (simp add: mp_pass_def Let_def split_beta)

function mp_pass_loop :: "'f float_ops \<Rightarrow> 'f multipass_avg_t \<Rightarrow> int \<Rightarrow> 'f farray \<Rightarrow> int \<Rightarrow> 'f multipass_avg_t \<times> 'f farray" where
  "mp_pass_loop ops mp pass data n =
     (if pass < n_passes mp
      then (let (mp', data') = mp_pass ops mp pass data n
            in mp_pass_loop ops mp' (pass + 1) data' n)
      else (mp, data))"
  by pat_completeness auto
termination
proof (relation "measure (\<lambda>(ops, mp, pass, data, n). nat (n_passes mp - pass))")
  show "wf (measure (\<lambda>(ops, mp, pass, data, n). nat (n_passes mp - pass)))"
    by simp
next
  fix ops :: "'f float_ops" and mp :: "'f multipass_avg_t" and pass data n x xa y
  assume "pass < n_passes mp" and "x = mp_pass ops mp pass data n" and "(xa, y) = x"
  then have "n_passes xa = n_passes mp"
    using mp_pass_n_passes [of ops mp pass data n] by (metis fst_conv)
  with \<open>pass < n_passes mp\<close>
  show "((ops, xa, pass + 1, y, n), ops, mp, pass, data, n)
          \<in> measure (\<lambda>(ops, mp, pass, data, n). nat (n_passes mp - pass))"
    by simp
qed

declare mp_pass_loop.simps [simp del]

definition multipass_process :: "'f float_ops \<Rightarrow> 'f multipass_avg_t \<Rightarrow> 'f farray \<Rightarrow> int \<Rightarrow> 'f multipass_avg_t \<times> 'f farray" where
  "multipass_process ops mp data n = mp_pass_loop ops mp 0 data n"

definition multipass_reset :: "'f float_ops \<Rightarrow> 'f multipass_avg_t \<Rightarrow> 'f multipass_avg_t" where
  "multipass_reset ops mp =
     mp\<lparr>buffers := (\<lambda>i. if 0 \<le> i \<and> i < n_passes mp then (\<lambda>_. f_lit ops 0 0) else buffers mp i),
        buf_len := (\<lambda>i. if 0 \<le> i \<and> i < n_passes mp then 0 else buf_len mp i),
        running_sum := (\<lambda>i. if 0 \<le> i \<and> i < n_passes mp then f_lit ops 0 0 else running_sum mp i)\<rparr>"

section \<open>Biquad cascade (iir\_filter.c, processing only)\<close>

record 'f iir_section_t =
  sec_b :: "'f farray"
  sec_a :: "'f farray"
  sec_z :: "'f farray"

record 'f iir_filter_t =
  sections :: "int \<Rightarrow> 'f iir_section_t"
  n_sections :: int

text \<open>\<open>memset(f, 0, sizeof *f)\<close>: the empty cascade, which passes its input through.\<close>

definition iir_zero :: "'f float_ops \<Rightarrow> 'f iir_filter_t" where
  "iir_zero ops =
     \<lparr>sections = (\<lambda>_. \<lparr>sec_b = (\<lambda>_. f_lit ops 0 0), sec_a = (\<lambda>_. f_lit ops 0 0),
                        sec_z = (\<lambda>_. f_lit ops 0 0)\<rparr>),
      n_sections = 0\<rparr>"

function iir_sample_loop ::
  "'f float_ops \<Rightarrow> 'f \<Rightarrow> 'f \<Rightarrow> 'f \<Rightarrow> 'f \<Rightarrow> 'f \<Rightarrow> int \<Rightarrow> int \<Rightarrow> 'f \<Rightarrow> 'f \<Rightarrow> 'f farray \<Rightarrow> 'f \<times> 'f \<times> 'f farray" where
  "iir_sample_loop ops b0 b1 b2 a1 a2 n i z0 z1 data =
     (if i < n then
        (let x = data i;
             y = f_add ops (f_mul ops b0 x) z0;
             z0' = f_add ops (f_sub ops (f_mul ops b1 x) (f_mul ops a1 y)) z1;
             z1' = f_sub ops (f_mul ops b2 x) (f_mul ops a2 y)
         in iir_sample_loop ops b0 b1 b2 a1 a2 n (i + 1) z0' z1' (data(i := y)))
      else (z0, z1, data))"
  by pat_completeness auto
termination
  by (relation "measure (\<lambda>(ops, b0, b1, b2, a1, a2, n, i, z0, z1, data). nat (n - i))") auto

declare iir_sample_loop.simps [simp del]

function iir_section_loop :: "'f float_ops \<Rightarrow> 'f iir_filter_t \<Rightarrow> int \<Rightarrow> 'f farray \<Rightarrow> int \<Rightarrow> 'f iir_filter_t \<times> 'f farray" where
  "iir_section_loop ops f s data n =
     (if s < n_sections f then
        (let sec = sections f s;
             (z0, z1, data') =
                iir_sample_loop ops (sec_b sec 0) (sec_b sec 1) (sec_b sec 2) (sec_a sec 1) (sec_a sec 2)
                  n 0 (sec_z sec 0) (sec_z sec 1) data;
             sec' = sec\<lparr>sec_z := (sec_z sec)(0 := z0, 1 := z1)\<rparr>
         in iir_section_loop ops (f\<lparr>sections := (sections f)(s := sec')\<rparr>) (s + 1) data' n)
      else (f, data))"
  by pat_completeness auto
termination
  by (relation "measure (\<lambda>(ops, f, s, data, n). nat (n_sections f - s))") auto

declare iir_section_loop.simps [simp del]

definition iir_filter_process :: "'f float_ops \<Rightarrow> 'f iir_filter_t \<Rightarrow> 'f farray \<Rightarrow> int \<Rightarrow> 'f iir_filter_t \<times> 'f farray" where
  "iir_filter_process ops f data n = iir_section_loop ops f 0 data n"

definition iir_filter_reset :: "'f float_ops \<Rightarrow> 'f iir_filter_t \<Rightarrow> 'f iir_filter_t" where
  "iir_filter_reset ops f =
     f\<lparr>sections := (\<lambda>s. if 0 \<le> s \<and> s < n_sections f
                          then (sections f s)\<lparr>sec_z := (sec_z (sections f s))(0 := f_lit ops 0 0, 1 := f_lit ops 0 0)\<rparr>
                          else sections f s)\<rparr>"

section \<open>Envelope detector (envelope.c)\<close>

datatype envelope_mode_t = ENV_MODE_IIR | ENV_MODE_MULTIPASS

record 'f envelope_t =
  lpf :: "'f iir_filter_t"
  mpf :: "'f multipass_avg_t"
  env_mode :: envelope_mode_t
  peak_level :: "'f"
  threshold_on :: "'f"
  threshold_off :: "'f"
  prev_state :: int

text \<open>
  The window computation of \<open>envelope_init\<close> in multipass mode, up to the call of
  \<open>multipass_init\<close>: \<open>(int)window_f\<close>, the floor at 5 and the step to the next odd number.
\<close>

definition envelope_window :: "'f float_ops \<Rightarrow> int \<Rightarrow> 'f \<Rightarrow> int \<Rightarrow> int" where
  "envelope_window ops sample_rate window_s mp_passes =
     (let cutoff = f_div ops (f_lit ops 1 0) (f_mul ops (f_lit ops 2 0) window_s);
          window_f = f_div ops (f_of_int ops sample_rate)
                       (f_mul ops (f_mul ops cutoff (f_pi ops)) (f_sqrt ops (f_of_int ops mp_passes)));
          window = f_to_int ops window_f;
          window1 = (if window < 5 then 5 else window)
      in if window1 mod 2 = 0 then window1 + 1 else window1)"

text \<open>
  \<open>envelope_init\<close>.  The Butterworth designer \<open>iir_design_lowpass\<close> is not modelled; its
  result for the order, cutoff and sample rate is the parameter \<open>design_lowpass\<close>, used
  in IIR mode only.
\<close>

definition envelope_init ::
  "'f float_ops \<Rightarrow> (int \<Rightarrow> 'f \<Rightarrow> 'f \<Rightarrow> 'f iir_filter_t) \<Rightarrow> int \<Rightarrow> 'f \<Rightarrow> 'f \<Rightarrow> 'f \<Rightarrow>
   envelope_mode_t \<Rightarrow> int \<Rightarrow> 'f envelope_t" where
  "envelope_init ops design_lowpass sample_rate window_s thresh_on thresh_off m mp_passes =
     (let env = \<lparr>lpf = iir_zero ops,
                 mpf = \<lparr>n_passes = 0, window_size = 0, buffers = (\<lambda>_ _. f_lit ops 0 0),
                        buf_len = (\<lambda>_. 0), running_sum = (\<lambda>_. f_lit ops 0 0)\<rparr>,
                 env_mode = m, peak_level = f_lit ops 0 0,
                 threshold_on = thresh_on, threshold_off = thresh_off, prev_state = 0\<rparr>
      in if m = ENV_MODE_MULTIPASS
         then env\<lparr>mpf := multipass_init ops mp_passes (envelope_window ops sample_rate window_s mp_passes)\<rparr>
         else env\<lparr>lpf := design_lowpass 2 (f_div ops (f_lit ops 1 0) (f_mul ops (f_lit ops 2 0) window_s))
                              (f_of_int ops sample_rate)\<rparr>)"

text \<open>The peak scan and the hysteresis loop of \<open>envelope_process\<close>.\<close>

function peak_loop :: "'f float_ops \<Rightarrow> 'f farray \<Rightarrow> int \<Rightarrow> int \<Rightarrow> 'f \<Rightarrow> 'f" where
  "peak_loop ops tmp chunk i chunk_peak =
     (if i < chunk
      then peak_loop ops tmp chunk (i + 1) (if f_lt ops chunk_peak (tmp i) then tmp i else chunk_peak)
      else chunk_peak)"
  by pat_completeness auto
termination
  by (relation "measure (\<lambda>(ops, tmp, chunk, i, chunk_peak). nat (chunk - i))") auto

declare peak_loop.simps [simp del]

function hysteresis_loop ::
  "'f float_ops \<Rightarrow> 'f farray \<Rightarrow> 'f \<Rightarrow> 'f \<Rightarrow> int \<Rightarrow> int \<Rightarrow> int \<Rightarrow> int \<Rightarrow> (int \<Rightarrow> int) \<Rightarrow> int \<times> (int \<Rightarrow> int)" where
  "hysteresis_loop ops tmp on_thr off_thr processed chunk i state on_off =
     (if i < chunk
      then (let state' = (if state \<noteq> 0
                          then (if f_le ops off_thr (tmp i) then 1 else 0)
                          else (if f_le ops on_thr (tmp i) then 1 else 0))
            in hysteresis_loop ops tmp on_thr off_thr processed chunk (i + 1) state'
                 (on_off(processed + i := state')))
      else (state, on_off))"
  by pat_completeness auto
termination
  by (relation "measure (\<lambda>(ops, tmp, on_thr, off_thr, processed, chunk, i, state, on_off). nat (chunk - i))") auto

declare hysteresis_loop.simps [simp del]

text \<open>One iteration of the \<open>while (processed < n)\<close> loop: a segment of at most 4096 samples.\<close>

definition envelope_segment ::
  "'f float_ops \<Rightarrow> 'f envelope_t \<Rightarrow> 'f farray \<Rightarrow> (int \<Rightarrow> int) \<Rightarrow> int \<Rightarrow> int \<Rightarrow> 'f envelope_t \<times> (int \<Rightarrow> int)" where
  "envelope_segment ops env audio on_off processed chunk =
     (let tmp0 = (\<lambda>i. if 0 \<le> i \<and> i < chunk then f_fabs ops (audio (processed + i)) else f_lit ops 0 0);
          (env1, tmp) =
             (if env_mode env = ENV_MODE_MULTIPASS
              then (let (mp', d) = multipass_process ops (mpf env) tmp0 chunk in (env\<lparr>mpf := mp'\<rparr>, d))
              else (let (f', d) = iir_filter_process ops (lpf env) tmp0 chunk in (env\<lparr>lpf := f'\<rparr>, d)));
          chunk_peak = peak_loop ops tmp chunk 0 (f_lit ops 0 0);
          peak = (if f_lt ops (peak_level env1) chunk_peak then chunk_peak
                  else f_add ops (f_mul ops (f_lit ops 995 (-3)) (peak_level env1))
                                 (f_mul ops (f_lit ops 5 (-3)) chunk_peak));
          on_thr0 = f_mul ops peak (threshold_on env1);
          off_thr0 = f_mul ops peak (threshold_off env1);
          on_thr = (if f_lt ops on_thr0 (f_lit ops 1 (-10)) then f_lit ops 1 (-10) else on_thr0);
          off_thr = (if f_lt ops off_thr0 (f_lit ops 1 (-10)) then f_lit ops 1 (-10) else off_thr0);
          (state, on_off') = hysteresis_loop ops tmp on_thr off_thr processed chunk 0 (prev_state env1) on_off
      in (env1\<lparr>peak_level := peak, prev_state := state\<rparr>, on_off'))"

function envelope_loop ::
  "'f float_ops \<Rightarrow> 'f envelope_t \<Rightarrow> 'f farray \<Rightarrow> (int \<Rightarrow> int) \<Rightarrow> int \<Rightarrow> int \<Rightarrow> 'f envelope_t \<times> (int \<Rightarrow> int)" where
  "envelope_loop ops env audio on_off n processed =
     (if processed < n
      then (let chunk = (if n - processed > 4096 then 4096 else n - processed);
                (env', on_off') = envelope_segment ops env audio on_off processed chunk
            in envelope_loop ops env' audio on_off' n (processed + chunk))
      else (env, on_off))"
  by pat_completeness auto
termination
  by (relation "measure (\<lambda>(ops, env, audio, on_off, n, processed). nat (n - processed))") auto

declare envelope_loop.simps [simp del]

definition envelope_process ::
  "'f float_ops \<Rightarrow> 'f envelope_t \<Rightarrow> 'f farray \<Rightarrow> (int \<Rightarrow> int) \<Rightarrow> int \<Rightarrow> 'f envelope_t \<times> (int \<Rightarrow> int)" where
  "envelope_process ops env audio on_off n = envelope_loop ops env audio on_off n 0"

definition envelope_reset :: "'f float_ops \<Rightarrow> 'f envelope_t \<Rightarrow> 'f envelope_t" where
  "envelope_reset ops env =
     (let env1 = env\<lparr>peak_level := f_lit ops 0 0, prev_state := 0\<rparr>
      in if env_mode env1 = ENV_MODE_MULTIPASS
         then env1\<lparr>mpf := multipass_reset ops (mpf env1)\<rparr>
         else env1\<lparr>lpf := iir_filter_reset ops (lpf env1)\<rparr>)"

section \<open>Output filter (output\_filter.c)\<close>

definition OUTPUT_FILTER_MAX_WORD :: int where "OUTPUT_FILTER_MAX_WORD = 64"

record output_filter_t =
  word_buf :: cbuf
  word_len :: int
  warmed_up :: int
  min_word_length :: int

definition is_noise_char :: "char \<Rightarrow> bool" where
  "is_noise_char c =
     (c = CHR ''E'' \<or> c = CHR ''T'' \<or> c = CHR ''I'' \<or>
      c = CHR ''A'' \<or> c = CHR ''N'' \<or> c = CHR ''M'' \<or> c = CHR ''?'')"

definition output_filter_init :: "int \<Rightarrow> output_filter_t" where
  "output_filter_init mwl = \<lparr>word_buf = zero_buf, word_len = 0, warmed_up = 0, min_word_length = mwl\<rparr>"

text \<open>
  \<open>memcpy(out + base, src, n)\<close> with an \<open>int\<close> count: the count is converted to the 64-bit
  \<open>size_t\<close>, so a negative \<open>n\<close> would copy \<open>2^64 + n\<close> bytes.
\<close>

definition size_t_of :: "int \<Rightarrow> int" where
  "size_t_of n = n mod 2 ^ 64"

definition memcpy :: "cbuf \<Rightarrow> int \<Rightarrow> cbuf \<Rightarrow> int \<Rightarrow> cbuf" where
  "memcpy dst base src n =
     (\<lambda>j. if base \<le> j \<and> j < base + size_t_of n then src (j - base) else dst j)"

text \<open>The scan of \<open>emit_word\<close> that computes \<open>all_noise\<close>, from index \<open>i\<close> on.\<close>

function all_noise_from :: "output_filter_t \<Rightarrow> int \<Rightarrow> bool" where
  "all_noise_from f i =
     (if i < word_len f
      then (if \<not> is_noise_char (word_buf f i) then False else all_noise_from f (i + 1))
      else True)"
  by pat_completeness auto
termination
  by (relation "measure (\<lambda>(f, i). nat (word_len f - i))") auto

declare all_noise_from.simps [simp del]

text \<open>
  \<open>emit_word(f, out + base, out_len)\<close>: the returned count, the output buffer and the filter
  after the call.
\<close>

definition emit_word :: "output_filter_t \<Rightarrow> cbuf \<Rightarrow> int \<Rightarrow> int \<Rightarrow> int \<times> cbuf \<times> output_filter_t" where
  "emit_word f out base out_len =
     (if word_len f = 0 then (0, out, f)
      else if warmed_up f \<noteq> 0
      then (let n = (if word_len f > out_len then out_len else word_len f)
            in (n, memcpy out base (word_buf f) n, f))
      else if word_len f < min_word_length f \<and> all_noise_from f 0 then (0, out, f)
      else (let n = (if word_len f > out_len then out_len else word_len f)
            in (n, memcpy out base (word_buf f) n, f\<lparr>warmed_up := 1\<rparr>)))"

text \<open>
  The body of the loop of \<open>output_filter_feed\<close> for one character, and the loop.  The
  output pointer is \<open>out + base\<close>; \<open>written\<close> counts from it.
\<close>

definition feed_char ::
  "output_filter_t \<Rightarrow> char \<Rightarrow> cbuf \<Rightarrow> int \<Rightarrow> int \<Rightarrow> int \<Rightarrow> int \<times> cbuf \<times> output_filter_t" where
  "feed_char f c out base out_len written =
     (if c = CHR '' ''
      then (let (n, out1, f1) = emit_word f out (base + written) (out_len - written);
                (written1, out2) =
                   (if n > 0
                    then (if written + n < out_len
                          then (written + n + 1, out1(base + (written + n) := CHR '' ''))
                          else (written + n, out1))
                    else (written, out1))
            in (written1, out2, f1\<lparr>word_len := 0\<rparr>))
      else (written, out,
            if word_len f < OUTPUT_FILTER_MAX_WORD - 1
            then f\<lparr>word_buf := (word_buf f)(word_len f := c), word_len := word_len f + 1\<rparr>
            else f))"

function feed_loop ::
  "output_filter_t \<Rightarrow> cbuf \<Rightarrow> int \<Rightarrow> cbuf \<Rightarrow> int \<Rightarrow> int \<Rightarrow> int \<Rightarrow> int \<Rightarrow> int \<times> cbuf \<times> output_filter_t" where
  "feed_loop f text text_len out base out_len i written =
     (if i < text_len \<and> written < out_len
      then (let (written1, out1, f1) = feed_char f (text i) out base out_len written
            in feed_loop f1 text text_len out1 base out_len (i + 1) written1)
      else (written, out, f))"
  by pat_completeness auto
termination
  by (relation "measure (\<lambda>(f, text, text_len, out, base, out_len, i, written). nat (text_len - i))") auto

declare feed_loop.simps [simp del]

definition output_filter_feed ::
  "output_filter_t \<Rightarrow> cbuf \<Rightarrow> int \<Rightarrow> cbuf \<Rightarrow> int \<Rightarrow> int \<Rightarrow> int \<times> cbuf \<times> output_filter_t" where
  "output_filter_feed f text text_len out base out_len = feed_loop f text text_len out base out_len 0 0"

definition output_filter_flush :: "output_filter_t \<Rightarrow> cbuf \<Rightarrow> int \<Rightarrow> int \<Rightarrow> int \<times> cbuf \<times> output_filter_t" where
  "output_filter_flush f out base out_len =
     (let (n, out1, f1) = emit_word f out base out_len in (n, out1, f1\<lparr>word_len := 0\<rparr>))"

definition output_filter_reset :: "output_filter_t \<Rightarrow> output_filter_t" where
  "output_filter_reset f = f\<lparr>word_len := 0, warmed_up := 0\<rparr>"

section \<open>Decoder pipeline (cw\_decoder.c)\<close>

definition MAX_PATTERN :: int where "MAX_PATTERN = 16"

datatype cw_timing_mode_t = CW_TIMING_EMA | CW_TIMING_KALMAN
datatype cw_envelope_mode_t = CW_ENVELOPE_IIR | CW_ENVELOPE_MULTIPASS

record 'f cw_config_t =
  cfg_sample_rate :: int
  cfg_center_freq :: "'f"
  cfg_bandwidth :: "'f"
  cfg_threshold_on :: "'f"
  cfg_threshold_off :: "'f"
  cfg_timing_mode :: cw_timing_mode_t
  cfg_envelope_mode :: cw_envelope_mode_t
  cfg_initial_wpm :: "'f"
  cfg_min_wpm :: "'f"
  cfg_max_wpm :: "'f"
  cfg_envelope_window_s :: "'f"
  cfg_min_element_ratio :: "'f"
  cfg_min_element_s :: "'f"
  cfg_use_hmm :: int
  cfg_min_word_length :: int
  cfg_multipass_passes :: int

definition cw_config_init :: "'f float_ops \<Rightarrow> 'f cw_config_t" where
  "cw_config_init ops =
     \<lparr>cfg_sample_rate = 48000,
      cfg_center_freq = f_lit ops 7000 (-1),
      cfg_bandwidth = f_lit ops 1000 (-1),
      cfg_threshold_on = f_lit ops 5 (-1),
      cfg_threshold_off = f_lit ops 4 (-1),
      cfg_timing_mode = CW_TIMING_KALMAN,
      cfg_envelope_mode = CW_ENVELOPE_MULTIPASS,
      cfg_initial_wpm = f_lit ops 200 (-1),
      cfg_min_wpm = f_lit ops 50 (-1),
      cfg_max_wpm = f_lit ops 600 (-1),
      cfg_envelope_window_s = f_lit ops 5 (-3),
      cfg_min_element_ratio = f_lit ops 3 (-1),
      cfg_min_element_s = f_lit ops 10 (-3),
      cfg_use_hmm = 0,
      cfg_min_word_length = 2,
      cfg_multipass_passes = 3\<rparr>"

record 'f cw_decoder_t =
  cfg :: "'f cw_config_t"
  bandpass :: "'f iir_filter_t"
  use_bandpass :: int
  envelope :: "'f envelope_t"
  timing :: "'f timing_t"
  dec_pattern :: cbuf
  pattern_len :: int
  out_filter :: output_filter_t

text \<open>
  The two Butterworth designers of \<open>iir_filter.c\<close> are not modelled: their results are the
  parameters \<open>design_bandpass\<close> (order, low edge, high edge, sample rate) and
  \<open>design_lowpass\<close> (order, cutoff, sample rate).  \<open>calloc\<close> may fail; \<open>alloc_ok\<close> says
  whether it succeeded.
\<close>

definition cw_decoder_create ::
  "'f float_ops \<Rightarrow> (int \<Rightarrow> 'f \<Rightarrow> 'f \<Rightarrow> 'f \<Rightarrow> 'f iir_filter_t) \<Rightarrow> (int \<Rightarrow> 'f \<Rightarrow> 'f \<Rightarrow> 'f iir_filter_t) \<Rightarrow>
   bool \<Rightarrow> 'f cw_config_t \<Rightarrow> 'f cw_decoder_t option" where
  "cw_decoder_create ops design_bandpass design_lowpass alloc_ok c =
     (if \<not> alloc_ok then None
      else
        let (bp, use_bp) =
              (if f_lt ops (f_lit ops 0 0) (cfg_bandwidth c)
               then (let low0 = f_sub ops (cfg_center_freq c) (f_div ops (cfg_bandwidth c) (f_lit ops 2 0));
                         high0 = f_add ops (cfg_center_freq c) (f_div ops (cfg_bandwidth c) (f_lit ops 2 0));
                         low = (if f_lt ops low0 (f_lit ops 1 0) then f_lit ops 1 0 else low0);
                         nyquist = f_div ops (f_of_int ops (cfg_sample_rate c)) (f_lit ops 2 0);
                         high = (if f_le ops nyquist high0 then f_sub ops nyquist (f_lit ops 1 0) else high0)
                     in if f_lt ops low high
                        then (design_bandpass 2 low high (f_of_int ops (cfg_sample_rate c)), 1)
                        else (iir_zero ops, 0))
               else (iir_zero ops, 0));
            emode = (if cfg_envelope_mode c = CW_ENVELOPE_MULTIPASS then ENV_MODE_MULTIPASS else ENV_MODE_IIR);
            tmode = (if cfg_timing_mode c = CW_TIMING_KALMAN then TIMING_MODE_KALMAN else TIMING_MODE_EMA)
        in Some \<lparr>cfg = c, bandpass = bp, use_bandpass = use_bp,
                 envelope = envelope_init ops design_lowpass (cfg_sample_rate c) (cfg_envelope_window_s c)
                              (cfg_threshold_on c) (cfg_threshold_off c) emode (cfg_multipass_passes c),
                 timing = timing_init ops tmode (cfg_sample_rate c) (cfg_initial_wpm c) (cfg_min_wpm c)
                            (cfg_max_wpm c) (cfg_min_element_ratio c) (cfg_min_element_s c),
                 dec_pattern = zero_buf, pattern_len = 0,
                 out_filter = output_filter_init (cfg_min_word_length c)\<rparr>)"

text \<open>
  The C string held in a character array of the given size: the characters before the
  first terminator.
\<close>

definition c_string :: "cbuf \<Rightarrow> nat \<Rightarrow> string" where
  "c_string buf sz = takeWhile (\<lambda>c. c \<noteq> CHR 0x00) (map (\<lambda>i. buf (int i)) [0..<sz])"

text \<open>
  \<open>pattern_feed(dec, elem, out, out_len)\<close> and \<open>pattern_flush(dec, out, out_len)\<close>: the
  returned count, the buffer \<open>out\<close> and the decoder after the call.
\<close>

definition pattern_feed :: "'f cw_decoder_t \<Rightarrow> int \<Rightarrow> cbuf \<Rightarrow> int \<Rightarrow> int \<times> cbuf \<times> 'f cw_decoder_t" where
  "pattern_feed dec elem out out_len =
     (if elem = ELEM_DIT \<or> elem = ELEM_DAH
      then (0, out,
            if pattern_len dec < MAX_PATTERN - 1
            then dec\<lparr>dec_pattern := (dec_pattern dec)(pattern_len dec := char_of elem),
                     pattern_len := pattern_len dec + 1\<rparr>
            else dec)
      else if elem = ELEM_CHAR \<or> elem = ELEM_WORD
      then (let (written, out1, dec1) =
                  (if pattern_len dec > 0
                   then (let pat = (dec_pattern dec)(pattern_len dec := CHR 0x00);
                             (n, ob) = morse_lookup_merged (c_string pat (nat MAX_PATTERN)) out out_len
                         in (n, ob, dec\<lparr>dec_pattern := pat, pattern_len := 0\<rparr>))
                   else (0, out, dec))
            in if elem = ELEM_WORD \<and> written < out_len
               then (written + 1, out1(written := CHR '' ''), dec1)
               else (written, out1, dec1))
      else (0, out, dec))"

definition pattern_flush :: "'f cw_decoder_t \<Rightarrow> cbuf \<Rightarrow> int \<Rightarrow> int \<times> cbuf \<times> 'f cw_decoder_t" where
  "pattern_flush dec out out_len =
     (if pattern_len dec \<le> 0 then (0, out, dec)
      else (let pat = (dec_pattern dec)(pattern_len dec := CHR 0x00);
                (n, ob) = morse_lookup_merged (c_string pat (nat MAX_PATTERN)) out out_len
            in (n, ob, dec\<lparr>dec_pattern := pat, pattern_len := 0\<rparr>)))"

text \<open>
  What \<open>cw_decoder_process\<close> and \<open>cw_decoder_finalize\<close> do with one element code: the
  pattern decoder writes into the local \<open>pat_out[4]\<close>, and what it wrote is fed to the output
  filter at \<open>out + total_written\<close>.
\<close>

definition emit_element ::
  "'f cw_decoder_t \<Rightarrow> int \<Rightarrow> cbuf \<Rightarrow> int \<Rightarrow> int \<Rightarrow> int \<times> cbuf \<times> 'f cw_decoder_t" where
  "emit_element dec elem out out_len total_written =
     (let (pat_n, pat_out, dec1) = pattern_feed dec elem zero_buf 4
      in if pat_n > 0
         then (let (filt_n, out1, f1) =
                     output_filter_feed (out_filter dec1) pat_out pat_n out total_written (out_len - total_written)
               in (total_written + filt_n, out1, dec1\<lparr>out_filter := f1\<rparr>))
         else (total_written, out, dec1))"

text \<open>The loop over the samples of one segment (steps 3 and 4 of \<open>cw_decoder_process\<close>).\<close>

function sample_loop ::
  "'f float_ops \<Rightarrow> 'f cw_decoder_t \<Rightarrow> (int \<Rightarrow> int) \<Rightarrow> int \<Rightarrow> cbuf \<Rightarrow> int \<Rightarrow> int \<Rightarrow> int \<Rightarrow>
   int \<times> cbuf \<times> 'f cw_decoder_t" where
  "sample_loop ops dec on_off chunk out out_len i total_written =
     (if i < chunk \<and> total_written < out_len
      then (let (elem, tm) = timing_process_sample ops (timing dec) (on_off i);
                dec1 = dec\<lparr>timing := tm\<rparr>;
                (tw, out1, dec2) =
                   (if elem \<noteq> ELEM_NONE then emit_element dec1 elem out out_len total_written
                    else (total_written, out, dec1))
            in sample_loop ops dec2 on_off chunk out1 out_len (i + 1) tw)
      else (total_written, out, dec))"
  by pat_completeness auto
termination
  by (relation "measure (\<lambda>(ops, dec, on_off, chunk, out, out_len, i, tw). nat (chunk - i))") auto

declare sample_loop.simps [simp del]

text \<open>The loop over segments of at most 4096 samples.\<close>

function segment_loop ::
  "'f float_ops \<Rightarrow> 'f cw_decoder_t \<Rightarrow> 'f farray \<Rightarrow> int \<Rightarrow> cbuf \<Rightarrow> int \<Rightarrow> int \<Rightarrow> int \<Rightarrow>
   int \<times> cbuf \<times> 'f cw_decoder_t" where
  "segment_loop ops dec audio n out out_len processed total_written =
     (if processed < n \<and> total_written < out_len
      then (let chunk = (if n - processed > 4096 then 4096 else n - processed);
                work0 = (\<lambda>i. if 0 \<le> i \<and> i < chunk then audio (processed + i) else f_lit ops 0 0);
                (bp, work) = (if use_bandpass dec \<noteq> 0
                              then iir_filter_process ops (bandpass dec) work0 chunk
                              else (bandpass dec, work0));
                (env, on_off) = envelope_process ops (envelope dec) work (\<lambda>_. 0) chunk;
                (tw, out1, dec1) =
                   sample_loop ops (dec\<lparr>bandpass := bp, envelope := env\<rparr>) on_off chunk out out_len 0
                     total_written
            in segment_loop ops dec1 audio n out1 out_len (processed + chunk) tw)
      else (total_written, out, dec))"
  by pat_completeness auto
termination
  by (relation "measure (\<lambda>(ops, dec, audio, n, out, out_len, processed, tw). nat (n - processed))") auto

declare segment_loop.simps [simp del]

text \<open>
  \<open>cw_decoder_process(dec, audio, n, out, out_len)\<close>, with the \<open>n\<close> samples given as a
  list, and \<open>cw_decoder_finalize(dec, out, out_len)\<close>: the returned count, the output
  buffer and the decoder after the call.
\<close>

definition cw_decoder_process ::
  "'f float_ops \<Rightarrow> 'f cw_decoder_t \<Rightarrow> 'f list \<Rightarrow> cbuf \<Rightarrow> int \<Rightarrow> int \<times> cbuf \<times> 'f cw_decoder_t" where
  "cw_decoder_process ops dec audio out out_len =
     (let n = int (length audio)
      in if n \<le> 0 \<or> out_len \<le> 0 then (0, out, dec)
         else segment_loop ops dec (\<lambda>i. audio ! nat i) n out out_len 0 0)"

definition cw_decoder_finalize ::
  "'f float_ops \<Rightarrow> 'f cw_decoder_t \<Rightarrow> cbuf \<Rightarrow> int \<Rightarrow> int \<times> cbuf \<times> 'f cw_decoder_t" where
  "cw_decoder_finalize ops dec out out_len =
     (let (elem, tm) = timing_finalize ops (timing dec);
          dec1 = dec\<lparr>timing := tm\<rparr>;
          (w1, out1, dec2) =
             (if elem \<noteq> ELEM_NONE then emit_element dec1 elem out out_len 0 else (0, out, dec1));
          (pat_n, pat_out, dec3) = pattern_flush dec2 zero_buf 4;
          (w2, out2, dec4) =
             (if pat_n > 0
              then (let (filt_n, ob, f1) = output_filter_feed (out_filter dec3) pat_out pat_n out1 w1 (out_len - w1)
                    in (w1 + filt_n, ob, dec3\<lparr>out_filter := f1\<rparr>))
              else (w1, out1, dec3));
          (n, out3, f2) = output_filter_flush (out_filter dec4) out2 w2 (out_len - w2)
      in (w2 + n, out3, dec4\<lparr>out_filter := f2\<rparr>))"

definition cw_decoder_reset :: "'f float_ops \<Rightarrow> 'f cw_decoder_t \<Rightarrow> 'f cw_decoder_t" where
  "cw_decoder_reset ops dec =
     (let dec1 = (if use_bandpass dec \<noteq> 0 then dec\<lparr>bandpass := iir_filter_reset ops (bandpass dec)\<rparr> else dec)
      in dec1\<lparr>envelope := envelope_reset ops (envelope dec1),
              timing := timing_reset ops (timing dec1) (cfg_initial_wpm (cfg dec1)),
              pattern_len := 0,
              out_filter := output_filter_reset (out_filter dec1)\<rparr>)"

section \<open>Calls, invariants and example states\<close>

text \<open>A call of the output filter's streaming interface, and a sequence of such calls.\<close>

datatype filter_call = Feed cbuf int int int | Flush int int

fun run_call :: "cbuf \<times> output_filter_t \<Rightarrow> filter_call \<Rightarrow> cbuf \<times> output_filter_t" where
  "run_call (out, f) (Feed text text_len base out_len) = snd (output_filter_feed f text text_len out base out_len)"
| "run_call (out, f) (Flush base out_len) = snd (output_filter_flush f out base out_len)"

definition run_calls :: "cbuf \<times> output_filter_t \<Rightarrow> filter_call list \<Rightarrow> cbuf \<times> output_filter_t" where
  "run_calls s calls = foldl run_call s calls"

text \<open>
  The representation invariant of the word buffer \<open>char word_buf[64]\<close>: \<open>word_len\<close> counts
  the characters held, at most 63.  \<open>output_filter_init\<close> establishes it and every
  operation keeps it.
\<close>

definition filter_ok :: "output_filter_t \<Rightarrow> bool" where
  "filter_ok f = (0 \<le> word_len f \<and> word_len f \<le> 63)"

text \<open>
  \<open>advances base out_len w out w' out'\<close>: the write position moved from \<open>w\<close> to \<open>w'\<close>
  without passing \<open>out_len\<close>, and \<open>out'\<close> differs from \<open>out\<close> at most in the cells
  \<open>base + w .. base + w' - 1\<close>.
\<close>

definition advances :: "int \<Rightarrow> int \<Rightarrow> int \<Rightarrow> cbuf \<Rightarrow> int \<Rightarrow> cbuf \<Rightarrow> bool" where
  "advances base out_len w out w' out' =
     (w \<le> w' \<and> w' \<le> out_len \<and> (\<forall>j. j < base + w \<or> base + w' \<le> j \<longrightarrow> out' j = out j))"

text \<open>
  A decoder created without bandpass, in EMA and IIR mode (the designer returning the
  empty cascade), which has since buffered the word \<open>HI\<close> and the pattern \<open>.\<close>.
\<close>

definition example_decoder :: "real cw_decoder_t" where
  "example_decoder =
     (the (cw_decoder_create real_ops (\<lambda>_ _ _ _. iir_zero real_ops) (\<lambda>_ _ _. iir_zero real_ops) True
        ((cw_config_init real_ops)\<lparr>cfg_bandwidth := 0, cfg_timing_mode := CW_TIMING_EMA,
                                   cfg_envelope_mode := CW_ENVELOPE_IIR\<rparr>)))
     \<lparr>dec_pattern := zero_buf(0 := CHR ''.''), pattern_len := 1,
      out_filter := \<lparr>word_buf = zero_buf(0 := CHR ''H'', 1 := CHR ''I''), word_len = 2,
                      warmed_up = 0, min_word_length = 2\<rparr>\<rparr>"

text \<open>
  \<open>write_at out b cs\<close> is the buffer \<open>out\<close> with the characters \<open>cs\<close> stored from offset
  \<open>b\<close>; \<open>word_chars f\<close> is the word held in \<open>word_buf\<close>, \<open>chars_of tx n\<close> the first \<open>n\<close>
  characters of the array \<open>tx\<close>.
\<close>

definition write_at :: "cbuf \<Rightarrow> int \<Rightarrow> string \<Rightarrow> cbuf" where
  "write_at out b cs = (\<lambda>j. if b \<le> j \<and> j < b + int (length cs) then cs ! nat (j - b) else out j)"

definition word_chars :: "output_filter_t \<Rightarrow> string" where
  "word_chars f = map (\<lambda>i. word_buf f (int i)) [0..<nat (word_len f)]"

definition chars_of :: "cbuf \<Rightarrow> int \<Rightarrow> string" where
  "chars_of tx n = map (\<lambda>i. tx (int i)) [0..<nat n]"

text \<open>
  Verbatim emission, as section 4.7 of the specification words it for a warmed-up filter:
  with the word \<open>w\<close> buffered and the text \<open>cs\<close> fed, every space emits the buffered word
  followed by a space (nothing when no word is buffered), and every other character joins
  the buffered word while it has fewer than 63 characters.  \<open>spoken w cs\<close> is the text
  emitted, \<open>pending w cs\<close> the word left in the buffer.
\<close>

fun spoken :: "string \<Rightarrow> string \<Rightarrow> string" where
  "spoken w [] = []"
| "spoken w (c # cs) =
     (if c = CHR '' ''
      then (if w = [] then [] else w @ [CHR '' '']) @ spoken [] cs
      else spoken (if length w < 63 then w @ [c] else w) cs)"

fun pending :: "string \<Rightarrow> string \<Rightarrow> string" where
  "pending w [] = w"
| "pending w (c # cs) =
     (if c = CHR '' '' then pending [] cs
      else pending (if length w < 63 then w @ [c] else w) cs)"

text \<open>A warmed-up filter holding the word \<open>HELLO\<close>.\<close>

definition hello_filter :: output_filter_t where
  "hello_filter = \<lparr>word_buf = write_at zero_buf 0 ''HELLO'', word_len = 5, warmed_up = 1,
                     min_word_length = 2\<rparr>"

section \<open>Kalman estimator: windows, covariance properties and call sequences\<close>

text \<open>
  \<open>is_num ops v\<close>: \<open>v \<le> v\<close> holds, which in binary32 is the case for every value except
  NaN.  \<open>ordered ops\<close>: of two numbers, one is below the other or the other is at most the
  one (a law of binary32).  \<open>in_window ops lo hi v\<close>: \<open>lo \<le> v \<le> hi\<close> in the comparison of the
  arithmetic; \<open>window_ok ops lo hi v\<close>: the three are numbers and the window is not empty.
  \<open>each_window p ops k\<close> states \<open>p\<close> of the five windows of \<open>apply_bounds\<close>, computed as
  \<open>apply_bounds\<close> computes them from the state \<open>k\<close>, and the five entries of \<open>x\<close>.
\<close>

definition is_num :: "'f float_ops \<Rightarrow> 'f \<Rightarrow> bool" where
  "is_num ops v = f_le ops v v"

definition ordered :: "'f float_ops \<Rightarrow> bool" where
  "ordered ops = (\<forall>a b. is_num ops a \<and> is_num ops b \<and> \<not> f_lt ops a b \<longrightarrow> f_le ops b a)"






text \<open>
  Properties of the 5 by 5 block of the covariance: symmetric, diagonal, with a
  non-negative diagonal, positive semidefinite (symmetric with a non-negative quadratic
  form).  \<open>noise_nonneg\<close> says that \<open>R\<close> and the five \<open>Q[i]\<close> are not negative;
  \<open>run_invariant\<close> is what every state of a run satisfies in exact arithmetic.
\<close>

definition P_symmetric :: "(int \<Rightarrow> int \<Rightarrow> 'a) \<Rightarrow> bool" where
  "P_symmetric P = (\<forall>i\<in>{0..<KALMAN_STATES}. \<forall>j\<in>{0..<KALMAN_STATES}. P i j = P j i)"


definition P_nonneg_diag :: "(int \<Rightarrow> int \<Rightarrow> real) \<Rightarrow> bool" where
  "P_nonneg_diag P = (\<forall>i\<in>{0..<KALMAN_STATES}. 0 \<le> P i i)"





text \<open>
  The state \<open>kalman_update\<close> hands to \<open>apply_bounds\<close> when it accepts a measurement
  (lemma \<open>kalman_update_accepted\<close>), and the innovation variance \<open>S\<close> of that update in
  exact arithmetic.
\<close>

definition accepted_state :: "'f float_ops \<Rightarrow> 'f kalman_t \<Rightarrow> int \<Rightarrow> 'f \<Rightarrow> 'f kalman_t" where
  "accepted_state ops k idx D =
     (let innovation = f_sub ops (f_log ops D) (kx k idx);
          S0 = f_add ops (kP k idx idx) (kR k);
          S = (if f_lt ops S0 (f_lit ops 1 (-10)) then f_lit ops 1 (-10) else S0);
          K = (\<lambda>i. f_div ops (kP k i idx) S)
      in k\<lparr>kx := (\<lambda>i. if in_states i then f_add ops (kx k i) (f_mul ops (K i) innovation) else kx k i),
            kP := (\<lambda>i j. if in_states i \<and> in_states j
                     then (if i = j
                           then f_add ops (f_add ops (f_add ops (f_sub ops (f_sub ops (kP k i j) (f_mul ops (K i) (kP k idx j))) (f_mul ops (kP k i idx) (K j)))
                                   (f_mul ops (f_mul ops (K i) (kP k idx idx)) (K j))) (f_mul ops (f_mul ops (K i) (kR k)) (K j))) (kQ k i)
                           else f_add ops (f_add ops (f_sub ops (f_sub ops (kP k i j) (f_mul ops (K i) (kP k idx j))) (f_mul ops (kP k i idx) (K j)))
                                   (f_mul ops (f_mul ops (K i) (kP k idx idx)) (K j))) (f_mul ops (f_mul ops (K i) (kR k)) (K j)))
                     else kP k i j)\<rparr>)"

definition gain_S :: "real kalman_t \<Rightarrow> int \<Rightarrow> real" where
  "gain_S k idx = (if kP k idx idx + kR k < 1 / 10 ^ 10 then 1 / 10 ^ 10 else kP k idx idx + kR k)"




text \<open>
  An arithmetic with a NaN: exact numbers \<open>Some x\<close> and the value \<open>None\<close> for NaN.  An
  operation with a NaN operand gives NaN, a comparison with NaN is false, and the
  logarithm and the square root of a negative number are NaN, as in binary32.  Infinities
  are not represented: a division by zero and the logarithm of zero give \<open>None\<close> here, and
  \<open>(int)\<close> of NaN is 0; no run below calls them.
\<close>

definition nan2 :: "(real \<Rightarrow> real \<Rightarrow> real) \<Rightarrow> real option \<Rightarrow> real option \<Rightarrow> real option" where
  "nan2 g a b = (case (a, b) of (Some x, Some y) \<Rightarrow> Some (g x y) | _ \<Rightarrow> None)"

definition nan_ops :: "real option float_ops" where
  "nan_ops =
     \<lparr>f_add = nan2 (+), f_sub = nan2 (-), f_mul = nan2 (*),
      f_div = (\<lambda>a b. if b = Some 0 then None else nan2 (/) a b),
      f_lt = (\<lambda>a b. case (a, b) of (Some x, Some y) \<Rightarrow> x < y | _ \<Rightarrow> False),
      f_le = (\<lambda>a b. case (a, b) of (Some x, Some y) \<Rightarrow> x \<le> y | _ \<Rightarrow> False),
      f_lit = (\<lambda>m e. Some (if e \<ge> 0 then of_int m * 10 ^ nat e else of_int m / 10 ^ nat (- e))),
      f_of_int = (\<lambda>i. Some (of_int i)),
      f_to_int = (\<lambda>a. case a of Some x \<Rightarrow> (if x \<ge> 0 then \<lfloor>x\<rfloor> else - \<lfloor>- x\<rfloor>) | None \<Rightarrow> 0),
      f_fabs = map_option abs,
      f_log = (\<lambda>a. case a of Some x \<Rightarrow> (if 0 < x then Some (ln x) else None) | None \<Rightarrow> None),
      f_exp = map_option exp,
      f_sqrt = (\<lambda>a. case a of Some x \<Rightarrow> (if 0 \<le> x then Some (sqrt x) else None) | None \<Rightarrow> None),
      f_ln2 = Some (ln 2), f_pi = Some pi\<rparr>"



definition skewed_kalman :: "real kalman_t" where
  "skewed_kalman = (kalman_init real_ops 48000 20 5 60)
     \<lparr>kP := (\<lambda>i j. if i = j then 1/10 else if (i = 0 \<and> j = 1) \<or> (i = 1 \<and> j = 0) then 2/10 else 0)\<rparr>"

section \<open>Chunked decoding\<close>

text \<open>
  The text the pipeline produces when the output buffer never fills up, read off the same
  functions: \<open>emitted_word\<close> is what \<open>emit_word\<close> copies, \<open>fed_text\<close> what
  \<open>output_filter_feed\<close> writes, \<open>heard_samples\<close> and \<open>heard_segments\<close> what the sample
  loop and the 4096-sample segment loop of \<open>cw_decoder_process\<close> write, and
  \<open>finalize_text\<close> what \<open>cw_decoder_finalize\<close> writes.
\<close>

text \<open>What emit_word emits when it has room: the word, or nothing.\<close>

definition emitted_word :: "output_filter_t \<Rightarrow> string" where
  "emitted_word f =
     (if word_len f = 0 \<or> (warmed_up f = 0 \<and> word_len f < min_word_length f \<and> all_noise_from f 0)
      then [] else word_chars f)"

definition after_emit :: "output_filter_t \<Rightarrow> output_filter_t" where
  "after_emit f =
     (if word_len f = 0 \<or> warmed_up f \<noteq> 0 \<or> (word_len f < min_word_length f \<and> all_noise_from f 0)
      then f else f\<lparr>warmed_up := 1\<rparr>)"

definition fed_chars :: "output_filter_t \<Rightarrow> char \<Rightarrow> string" where
  "fed_chars f c =
     (if c = CHR '' '' then (if emitted_word f = [] then [] else emitted_word f @ [CHR '' '']) else [])"

definition after_char :: "output_filter_t \<Rightarrow> char \<Rightarrow> output_filter_t" where
  "after_char f c =
     (if c = CHR '' '' then (after_emit f)\<lparr>word_len := 0\<rparr>
      else if word_len f < OUTPUT_FILTER_MAX_WORD - 1
      then f\<lparr>word_buf := (word_buf f)(word_len f := c), word_len := word_len f + 1\<rparr>
      else f)"

function fed_text :: "output_filter_t \<Rightarrow> cbuf \<Rightarrow> int \<Rightarrow> int \<Rightarrow> string \<times> output_filter_t" where
  "fed_text f text text_len i =
     (if i < text_len
      then (let (rest, f') = fed_text (after_char f (text i)) text text_len (i + 1)
            in (fed_chars f (text i) @ rest, f'))
      else ([], f))"
  by pat_completeness auto
termination
  by (relation "measure (\<lambda>(f, text, text_len, i). nat (text_len - i))") auto

declare fed_text.simps [simp del]

definition element_text :: "'f cw_decoder_t \<Rightarrow> int \<Rightarrow> string \<times> 'f cw_decoder_t" where
  "element_text dec elem =
     (let (pat_n, pat_out, dec1) = pattern_feed dec elem zero_buf 4
      in if pat_n > 0
         then (let (cs, f1) = fed_text (out_filter dec1) pat_out pat_n 0
               in (cs, dec1\<lparr>out_filter := f1\<rparr>))
         else ([], dec1))"

definition sample_text :: "'f float_ops \<Rightarrow> 'f cw_decoder_t \<Rightarrow> int \<Rightarrow> string \<times> 'f cw_decoder_t" where
  "sample_text ops dec on =
     (let (elem, tm) = timing_process_sample ops (timing dec) on;
          dec1 = dec\<lparr>timing := tm\<rparr>
      in if elem \<noteq> ELEM_NONE then element_text dec1 elem else ([], dec1))"

function heard_samples ::
  "'f float_ops \<Rightarrow> 'f cw_decoder_t \<Rightarrow> (int \<Rightarrow> int) \<Rightarrow> int \<Rightarrow> int \<Rightarrow> string \<times> 'f cw_decoder_t" where
  "heard_samples ops dec on_off chunk i =
     (if i < chunk
      then (let (cs, dec1) = sample_text ops dec (on_off i);
                (rest, dec2) = heard_samples ops dec1 on_off chunk (i + 1)
            in (cs @ rest, dec2))
      else ([], dec))"
  by pat_completeness auto
termination
  by (relation "measure (\<lambda>(ops, dec, on_off, chunk, i). nat (chunk - i))") auto

declare heard_samples.simps [simp del]

text \<open>One iteration of sample_loop, as a step function.\<close>

definition sample_step ::
  "'f float_ops \<Rightarrow> 'f cw_decoder_t \<Rightarrow> int \<Rightarrow> cbuf \<Rightarrow> int \<Rightarrow> int \<Rightarrow> int \<times> cbuf \<times> 'f cw_decoder_t" where
  "sample_step ops dec on out L tw =
     (let (elem, tm) = timing_process_sample ops (timing dec) on;
          dec1 = dec\<lparr>timing := tm\<rparr>
      in if elem \<noteq> ELEM_NONE then emit_element dec1 elem out L tw else (tw, out, dec1))"

definition segment_chunk :: "int \<Rightarrow> int \<Rightarrow> int" where
  "segment_chunk n processed = (if n - processed > 4096 then 4096 else n - processed)"

definition segment_front ::
  "'f float_ops \<Rightarrow> 'f cw_decoder_t \<Rightarrow> 'f farray \<Rightarrow> int \<Rightarrow> int \<Rightarrow> 'f cw_decoder_t \<times> (int \<Rightarrow> int)" where
  "segment_front ops dec audio processed chunk =
     (let work0 = (\<lambda>i. if 0 \<le> i \<and> i < chunk then audio (processed + i) else f_lit ops 0 0);
          (bp, work) = (if use_bandpass dec \<noteq> 0
                        then iir_filter_process ops (bandpass dec) work0 chunk
                        else (bandpass dec, work0));
          (env, on_off) = envelope_process ops (envelope dec) work (\<lambda>_. 0) chunk
      in (dec\<lparr>bandpass := bp, envelope := env\<rparr>, on_off))"

function heard_segments ::
  "'f float_ops \<Rightarrow> 'f cw_decoder_t \<Rightarrow> 'f farray \<Rightarrow> int \<Rightarrow> int \<Rightarrow> string \<times> 'f cw_decoder_t" where
  "heard_segments ops dec audio n processed =
     (if processed < n
      then (let chunk = segment_chunk n processed;
                (dec0, on_off) = segment_front ops dec audio processed chunk;
                (cs, dec1) = heard_samples ops dec0 on_off chunk 0;
                (rest, dec2) = heard_segments ops dec1 audio n (processed + chunk)
            in (cs @ rest, dec2))
      else ([], dec))"
  by pat_completeness auto
termination
  by (relation "measure (\<lambda>(ops, dec, audio, n, processed). nat (n - processed))")
     (auto simp: segment_chunk_def)

declare heard_segments.simps [simp del]

definition segment_text ::
  "'f float_ops \<Rightarrow> 'f cw_decoder_t \<Rightarrow> 'f farray \<Rightarrow> int \<Rightarrow> int \<Rightarrow> string \<times> 'f cw_decoder_t" where
  "segment_text ops dec audio n processed =
     (let chunk = segment_chunk n processed;
          (dec0, on_off) = segment_front ops dec audio processed chunk
      in heard_samples ops dec0 on_off chunk 0)"

definition segment_step ::
  "'f float_ops \<Rightarrow> 'f cw_decoder_t \<Rightarrow> 'f farray \<Rightarrow> int \<Rightarrow> int \<Rightarrow> cbuf \<Rightarrow> int \<Rightarrow> int \<Rightarrow>
   int \<times> cbuf \<times> 'f cw_decoder_t" where
  "segment_step ops dec audio n processed out L tw =
     (let chunk = segment_chunk n processed;
          (dec0, on_off) = segment_front ops dec audio processed chunk
      in sample_loop ops dec0 on_off chunk out L 0 tw)"

definition heard :: "'f float_ops \<Rightarrow> 'f cw_decoder_t \<Rightarrow> 'f list \<Rightarrow> string \<times> 'f cw_decoder_t" where
  "heard ops dec audio = heard_segments ops dec (\<lambda>i. audio ! nat i) (int (length audio)) 0"

definition finalize_text :: "'f float_ops \<Rightarrow> 'f cw_decoder_t \<Rightarrow> string \<times> 'f cw_decoder_t" where
  "finalize_text ops dec =
     (let (elem, tm) = timing_finalize ops (timing dec);
          dec1 = dec\<lparr>timing := tm\<rparr>;
          (cs1, dec2) = (if elem \<noteq> ELEM_NONE then element_text dec1 elem else ([], dec1));
          (pat_n, pat_out, dec3) = pattern_flush dec2 zero_buf 4;
          (cs2, dec4) = (if pat_n > 0
                         then (let (cs, f1) = fed_text (out_filter dec3) pat_out pat_n 0
                               in (cs, dec3\<lparr>out_filter := f1\<rparr>))
                         else ([], dec3))
      in (cs1 @ cs2 @ emitted_word (out_filter dec4),
          dec4\<lparr>out_filter := (after_emit (out_filter dec4))\<lparr>word_len := 0\<rparr>\<rparr>))"

fun heard_chunks :: "'f float_ops \<Rightarrow> 'f cw_decoder_t \<Rightarrow> 'f list list \<Rightarrow> string" where
  "heard_chunks ops dec [] = fst (finalize_text ops dec)"
| "heard_chunks ops dec (c # cs) = fst (heard ops dec c) @ heard_chunks ops (snd (heard ops dec c)) cs"

definition out_bytes :: "int \<times> cbuf \<times> 'a \<Rightarrow> string" where
  "out_bytes r = map (\<lambda>i. fst (snd r) (int i)) [0..<nat (fst r)]"

fun decode_chunks :: "'f float_ops \<Rightarrow> 'f cw_decoder_t \<Rightarrow> 'f list list \<Rightarrow> int \<Rightarrow> string \<times> bool" where
  "decode_chunks ops dec [] L =
     (let r = cw_decoder_finalize ops dec zero_buf L in (out_bytes r, fst r < L))"
| "decode_chunks ops dec (c # cs) L =
     (let r = cw_decoder_process ops dec c zero_buf L;
          (bs, fits) = decode_chunks ops (snd (snd r)) cs L
      in (out_bytes r @ bs, fst r < L \<and> fits))"

definition aligned :: "'a list list \<Rightarrow> bool" where
  "aligned cs = (\<forall>c \<in> set (butlast cs). 4096 dvd length c)"

text \<open>
  The segments \<open>cw_decoder_process\<close> cuts a chunk into: consecutive pieces of 4096 samples
  and a shorter last piece; an empty chunk has none.  \<open>segments cs\<close> lists the segments of
  all chunks in order.
\<close>

function split_segments :: "'a list \<Rightarrow> 'a list list" where
  "split_segments xs = (if xs = [] then [] else take 4096 xs # split_segments (drop 4096 xs))"
  by pat_completeness auto
termination
  by (relation "measure length") auto

declare split_segments.simps [simp del]

definition segments :: "'a list list \<Rightarrow> 'a list list" where
  "segments cs = concat (map split_segments cs)"

text \<open>
  Example decoders: 100 samples per second, no band-pass, one averaging pass (window 5),
  EMA timing, \<open>min_word_length = 1\<close>; the release threshold \<open>threshold_off\<close> is the
  argument, everything else is the default of \<open>cw_config_init\<close>.  \<open>chunk_decoder\<close> is the
  decoder that \<open>cw_decoder_create\<close> makes from \<open>chunk_config\<close> (lemma \<open>chunk_create\<close>).
  The constants \<open>real_log\<close> .. \<open>real_ln2\<close> name the transcendental operations of
  \<open>real_ops\<close>, so that runs which never call them can be evaluated.
\<close>

definition real_log :: "real \<Rightarrow> real" where "real_log = ln"
definition real_exp :: "real \<Rightarrow> real" where "real_exp = exp"
definition real_sqrt :: "real \<Rightarrow> real" where "real_sqrt = sqrt"
definition real_pi :: "real" where "real_pi = pi"
definition real_ln2 :: "real" where "real_ln2 = ln 2"

declare real_log_def [code del] real_exp_def [code del] real_sqrt_def [code del]
  real_pi_def [code del] real_ln2_def [code del]

definition chunk_config :: "real \<Rightarrow> real cw_config_t" where
  "chunk_config off = (cw_config_init real_ops)\<lparr>cfg_sample_rate := 100, cfg_bandwidth := 0,
      cfg_threshold_off := off, cfg_timing_mode := CW_TIMING_EMA, cfg_min_word_length := 1,
      cfg_multipass_passes := 1\<rparr>"

definition chunk_decoder :: "real \<Rightarrow> real cw_decoder_t" where
  "chunk_decoder off =
     \<lparr>cfg = chunk_config off, bandpass = iir_zero real_ops, use_bandpass = 0,
      envelope = \<lparr>lpf = iir_zero real_ops, mpf = multipass_init real_ops 1 5,
                   env_mode = ENV_MODE_MULTIPASS, peak_level = 0,
                   threshold_on = 1/2, threshold_off = off, prev_state = 0\<rparr>,
      timing = timing_init real_ops TIMING_MODE_EMA 100 20 5 60 (3/10) (1/100),
      dec_pattern = zero_buf, pattern_len = 0, out_filter = output_filter_init 1\<rparr>"

text \<open>
  A segment of 4095 silent samples and one sample 1, the arrays and states the envelope
  detector reaches on it from \<open>chunk_decoder (2/5)\<close> (lemmas \<open>multipass_key\<close>,
  \<open>envelope_key\<close>), and the decoder after it (lemma \<open>heard_key\<close>): the last sample is keyed
  on, and nothing has been classified yet.
\<close>

definition key_audio :: "real list" where
  "key_audio = replicate 4095 0 @ [1]"

definition key_data :: "real farray" where
  "key_data = (\<lambda>i. if i = 4095 then 1 else 0)"

definition key_mp :: "real multipass_avg_t" where
  "key_mp = \<lparr>n_passes = 1, window_size = 5,
             buffers = (\<lambda>p j. if p = 0 \<and> j = 3 then 1/5 else 0),
             buf_len = (\<lambda>p. if p = 0 then 4 else 0),
             running_sum = (\<lambda>p. if p = 0 then 1 else 0)\<rparr>"

definition key_env :: "real envelope_t" where
  "key_env = \<lparr>lpf = iir_zero real_ops, mpf = key_mp, env_mode = ENV_MODE_MULTIPASS,
              peak_level = 1/5, threshold_on = 1/2, threshold_off = 2/5, prev_state = 1\<rparr>"

definition keyed_decoder :: "real cw_decoder_t" where
  "keyed_decoder =
     (chunk_decoder (2/5))
       \<lparr>envelope := key_env,
        timing := (timing (chunk_decoder (2/5)))\<lparr>on_dur := 1, off_dur := 0, prev_on := 1\<rparr>\<rparr>"

section \<open>Merged lookup: concrete patterns\<close>

lemma lookup_dit_dah_dit_dah: "morse_lookup ''.-.-'' = CHR ''?''"
  by code_simp

lemma split_dit_dah_dit_dah:
  "split_loop ''.-.-'' (Suc (Suc (Suc (Suc 0)))) (Suc 0) (-1, CHR 0x00, CHR 0x00)
     = (338, CHR ''E'', CHR ''K'')"
  by code_simp

text \<open>
  C1 (as amended).  The pattern \<open>.-.-\<close> has no table entry.  The split after the first
  element gives \<open>E\<close> (321) and \<open>K\<close> (17), weight 338; the split after the second
  gives \<open>A\<close> and \<open>A\<close>, weight 254; the split after the third gives \<open>R\<close> and
  \<open>T\<close>, weight 320.  With room for two characters \<open>morse_lookup_merged\<close> therefore
  stores \<open>E\<close> at index 0 and \<open>K\<close> at index 1, and returns 2.
\<close>

theorem merged_dit_dah_dit_dah_EK:
  "2 \<le> out_len \<Longrightarrow>
   morse_lookup_merged ''.-.-'' out out_len = (2, out(0 := CHR ''E'', 1 := CHR ''K''))"
  by (simp add: morse_lookup_merged_def lookup_dit_dah_dit_dah split_dit_dah_dit_dah)

theorem merged_dit_dah_dit_dah_EK_witness:
  "(2::int) \<le> 4 \<and>
   morse_lookup_merged ''.-.-'' zero_buf 4 = (2, zero_buf(0 := CHR ''E'', 1 := CHR ''K''))"
  using merged_dit_dah_dit_dah_EK [of 4 zero_buf] by simp

text \<open>
  C1 as stated fails: on \<open>.-.-\<close> with \<open>out_len = 2\<close> the buffer does not hold \<open>AA\<close>.
\<close>

theorem merged_dit_dah_dit_dah_not_AA:
  "morse_lookup_merged ''.-.-'' zero_buf 2 \<noteq> (2, zero_buf(0 := CHR ''A'', 1 := CHR ''A''))"
proof
  assume "morse_lookup_merged ''.-.-'' zero_buf 2 = (2, zero_buf(0 := CHR ''A'', 1 := CHR ''A''))"
  then have "(zero_buf(0 := CHR ''E'', 1 := CHR ''K'')) 0 = (zero_buf(0 := CHR ''A'', 1 := CHR ''A'')) 0"
    by (simp add: morse_lookup_merged_def lookup_dit_dah_dit_dah split_dit_dah_dit_dah)
  then show False by simp
qed

lemma lookup_question_mark: "morse_lookup ''..--..'' = CHR ''?''"
  by code_simp

lemma split_question_mark:
  "split_loop ''..--..'' (Suc (Suc (Suc (Suc (Suc (Suc 0)))))) (Suc 0) (-1, CHR 0x00, CHR 0x00)
     = (117, CHR ''I'', CHR ''Z'')"
  by code_simp

text \<open>
  C3, at the input where the code departs from it.  The pattern \<open>..--..\<close> is an entry of
  the table (the question mark, weight 5), so the claim asks for that single character
  and the count 1.  Its character is also the value \<open>morse_lookup\<close> returns for
  "not found", so \<open>morse_lookup_merged\<close> takes the hit for a miss, goes on to the split
  loop, and stores \<open>I\<close> and \<open>Z\<close> (split after the second element, weight 115 + 2)
  with the count 2.
\<close>

theorem merged_question_mark_IZ:
  "mk_entry ''..--..'' (CHR ''?'') 5 \<in> set MORSE_TABLE \<and>
   morse_lookup_merged ''..--..'' zero_buf 2 = (2, zero_buf(0 := CHR ''I'', 1 := CHR ''Z''))"
  by (simp add: morse_lookup_merged_def lookup_question_mark split_question_mark MORSE_TABLE_def)

section \<open>Window size of the moving average\<close>

lemma multipass_init_window_range:
  "odd (window_size (multipass_init ops p w)) \<and>
   3 \<le> window_size (multipass_init ops p w) \<and>
   window_size (multipass_init ops p w) \<le> 257"
  by (auto simp: multipass_init_def Let_def MULTIPASS_MAX_WINDOW_def MULTIPASS_MAX_PASSES_def)

lemma multipass_init_window_mono:
  "5 \<le> w \<Longrightarrow> 5 \<le> window_size (multipass_init ops p w)"
  by (auto simp: multipass_init_def Let_def MULTIPASS_MAX_WINDOW_def MULTIPASS_MAX_PASSES_def)

lemma envelope_window_ge5: "5 \<le> envelope_window ops sr ws p"
  by (auto simp: envelope_window_def Let_def)

text \<open>
  What the code guarantees for every arithmetic, every sample rate, window length and
  pass count: through \<open>envelope_init\<close> the window is odd and lies between 5 and 257.
\<close>

lemma envelope_multipass_window_range:
  "odd (window_size (mpf (envelope_init ops d sr ws ton toff ENV_MODE_MULTIPASS p))) \<and>
   5 \<le> window_size (mpf (envelope_init ops d sr ws ton toff ENV_MODE_MULTIPASS p)) \<and>
   window_size (mpf (envelope_init ops d sr ws ton toff ENV_MODE_MULTIPASS p)) \<le> 257"
  using multipass_init_window_range [of ops p "envelope_window ops sr ws p"]
    multipass_init_window_mono [OF envelope_window_ge5, of ops p ops sr ws p]
  by (simp add: envelope_init_def)

lemma multipass_init_window_257:
  "256 \<le> w \<Longrightarrow> window_size (multipass_init ops p w) = 257"
  by (auto simp: multipass_init_def Let_def MULTIPASS_MAX_WINDOW_def)

lemma envelope_window_50ms: "256 \<le> envelope_window real_ops 48000 (1/20) 4"
proof -
  have "(256::real) \<le> 2400 / pi"
    using pi_less_4 pi_gt_zero by (simp add: pos_le_divide_eq)
  then have "256 \<le> \<lfloor>2400 / pi\<rfloor>"
    by (simp add: le_floor_iff)
  moreover have "(0::real) \<le> 2400 / pi" by simp
  ultimately have "256 \<le> f_to_int real_ops (2400 / pi)"
    by (simp add: real_ops_def)
  moreover have "f_div real_ops (f_of_int real_ops 48000)
      (f_mul real_ops
         (f_mul real_ops (f_div real_ops (f_lit real_ops 1 0) (f_mul real_ops (f_lit real_ops 2 0) (1/20)))
            (f_pi real_ops))
         (f_sqrt real_ops (f_of_int real_ops 4))) = 2400 / pi"
    by (simp add: real_ops_def)
  ultimately show ?thesis
    by (simp add: envelope_window_def Let_def)
qed

text \<open>
  C4, at an input where the code departs from it.  \<open>multipass_init\<close> first clamps the
  window to \<open>MULTIPASS_MAX_WINDOW = 256\<close> and only then steps an even window to the next
  odd number, so every request of 256 or more ends at 257.  With a sample rate of
  48000 Hz, an envelope window of 50 ms and 4 passes, \<open>envelope_init\<close> computes
  \<open>window_f = 2400 / pi\<close> (about 763), and the moving average is initialised with
  \<open>M = 257\<close>, above both the claimed 255 and the code's own maximum.
\<close>

theorem envelope_window_exceeds_max:
  "window_size (mpf (envelope_init real_ops d 48000 (1/20) (1/2) (2/5) ENV_MODE_MULTIPASS 4)) = 257 \<and>
   window_size (multipass_init real_ops 4 256) = 257 \<and> MULTIPASS_MAX_WINDOW = 256"
  using multipass_init_window_257 [OF envelope_window_50ms, of real_ops 4]
    multipass_init_window_257 [of 256 real_ops 4]
  by (simp add: envelope_init_def MULTIPASS_MAX_WINDOW_def)

section \<open>Kalman update: rejected measurements\<close>

text \<open>
  C10.  A state index outside \<open>0 .. 4\<close>, or a duration with \<open>duration_samples <= 0.0f\<close>,
  makes \<open>kalman_update\<close> return 0 with the whole filter state, the vector \<open>x\<close> and the
  covariance \<open>P\<close> included, exactly as it was.
\<close>

theorem kalman_update_rejects_bad_arguments:
  "state_idx < 0 \<or> 5 \<le> state_idx \<or> f_le ops duration_samples (f_lit ops 0 0) \<Longrightarrow>
   kalman_update ops k state_idx duration_samples = (0, k)"
  by (auto simp: kalman_update_def KALMAN_STATES_def)

theorem kalman_update_rejects_bad_arguments_witness:
  "((7::int) < 0 \<or> (5::int) \<le> 7 \<or> f_le real_ops 100 (f_lit real_ops 0 0)) \<and>
   kalman_update real_ops (kalman_init real_ops 48000 20 5 60) 7 100
     = (0, kalman_init real_ops 48000 20 5 60) \<and>
   ((0::int) < 0 \<or> (5::int) \<le> 0 \<or> f_le real_ops (- 3) (f_lit real_ops 0 0)) \<and>
   kalman_update real_ops (kalman_init real_ops 48000 20 5 60) 0 (- 3)
     = (0, kalman_init real_ops 48000 20 5 60)"
proof -
  have a: "(7::int) < 0 \<or> (5::int) \<le> 7 \<or> f_le real_ops 100 (f_lit real_ops 0 0)"
    by simp
  have b: "(0::int) < 0 \<or> (5::int) \<le> 0 \<or> f_le real_ops (- 3) (f_lit real_ops 0 0)"
    by (simp add: real_ops_def)
  show ?thesis
    using a b kalman_update_rejects_bad_arguments [OF a] kalman_update_rejects_bad_arguments [OF b]
    by blast
qed

text \<open>The gate is the constant \<open>M_LN2\<close> from \<open>kalman_init\<close> on, and no operation changes it.\<close>

lemma kalman_init_gate: "innovation_gate (kalman_init ops sr w mn mx) = f_ln2 ops"
  by (simp add: kalman_init_def kalman_reset_def Let_def)

lemma apply_bounds_gate: "innovation_gate (apply_bounds ops k) = innovation_gate k"
  by (simp add: apply_bounds_def Let_def)

lemma kalman_update_gate: "innovation_gate (snd (kalman_update ops k i D)) = innovation_gate k"
  by (simp add: kalman_update_def Let_def apply_bounds_gate)

lemma kalman_reset_gate: "innovation_gate (kalman_reset ops k w) = innovation_gate k"
  by (simp add: kalman_reset_def Let_def)

text \<open>
  C6.  For a valid state index \<open>i\<close>, a positive duration \<open>D\<close> and the gate \<open>ln 2\<close> set by
  \<open>kalman_init\<close>: when the innovation computed by the code, \<open>|logf(D) - x[i]|\<close>, exceeds
  the gate, \<open>kalman_update\<close> returns 0 and leaves the whole filter state, \<open>x\<close> and \<open>P\<close>
  included, unchanged.
\<close>

theorem kalman_update_gate_rejects:
  "0 \<le> i \<Longrightarrow> i < 5 \<Longrightarrow> f_lt ops (f_lit ops 0 0) D \<Longrightarrow>
   innovation_gate k = f_ln2 ops \<Longrightarrow>
   f_lt ops (f_ln2 ops) (f_fabs ops (f_sub ops (f_log ops D) (kx k i))) \<Longrightarrow>
   kalman_update ops k i D = (0, k)"
  by (simp add: kalman_update_def Let_def)

lemma kalman_init_x_dit:
  "kx (kalman_init real_ops 48000 20 5 60) 0 = ln 2880"
  by (simp add: kalman_init_def kalman_reset_def Let_def real_ops_def K_DIT_def K_DAH_def
      K_ELEM_SPACE_def K_CHAR_SPACE_def K_WORD_SPACE_def kalman_zero_def)

theorem kalman_update_gate_rejects_witness:
  "f_lt real_ops (f_lit real_ops 0 0) 1 \<and>
   innovation_gate (kalman_init real_ops 48000 20 5 60) = f_ln2 real_ops \<and>
   f_lt real_ops (f_ln2 real_ops)
     (f_fabs real_ops (f_sub real_ops (f_log real_ops 1) (kx (kalman_init real_ops 48000 20 5 60) 0))) \<and>
   kalman_update real_ops (kalman_init real_ops 48000 20 5 60) 0 1
     = (0, kalman_init real_ops 48000 20 5 60)"
proof -
  let ?k = "kalman_init real_ops 48000 20 5 60"
  have a: "f_lt real_ops (f_lit real_ops 0 0) 1"
    by (simp add: real_ops_def)
  have b: "innovation_gate ?k = f_ln2 real_ops"
    by (rule kalman_init_gate)
  have "ln (2::real) < ln 2880"
    by (subst ln_less_cancel_iff) simp_all
  then have c: "f_lt real_ops (f_ln2 real_ops)
     (f_fabs real_ops (f_sub real_ops (f_log real_ops 1) (kx ?k 0)))"
    by (simp add: kalman_init_x_dit) (simp add: real_ops_def)
  show ?thesis
    using a b c kalman_update_gate_rejects [of 0 real_ops 1 ?k] by simp
qed

section \<open>Timing classifier: one event per sample\<close>

text \<open>
  C9.  In one call of \<open>timing_process_sample\<close> the guard of the mark block
  (\<open>prev_on\<close> set, \<open>on\<close> clear) and the guard of the gap block (\<open>prev_on\<close> clear, \<open>on\<close>
  set) never both hold, whatever the mark block did to the state.  When the mark block
  runs, its result and state are what the call returns; a result \<open>ELEM_DIT\<close> or
  \<open>ELEM_DAH\<close> is returned as it is, and when the gap block runs the mark block has left
  the pending result at \<open>ELEM_NONE\<close> and the state untouched.
\<close>

theorem timing_sample_single_event:
  "(let t0 = count_sample t on;
        (r1, t1) = mark_block ops t0 on ELEM_NONE
    in \<not> (mark_guard t0 on \<and> gap_guard t1 on) \<and>
       (mark_guard t0 on \<longrightarrow> timing_process_sample ops t on = (r1, t1\<lparr>prev_on := on\<rparr>)) \<and>
       (r1 = ELEM_DIT \<or> r1 = ELEM_DAH \<longrightarrow> fst (timing_process_sample ops t on) = r1) \<and>
       (gap_guard t1 on \<longrightarrow> r1 = ELEM_NONE \<and> t1 = t0))"
proof -
  obtain r1 t1 where m: "mark_block ops (count_sample t on) on ELEM_NONE = (r1, t1)"
    by (cases "mark_block ops (count_sample t on) on ELEM_NONE")
  have excl: "\<not> (mark_guard (count_sample t on) on \<and> gap_guard t1 on)"
    by (simp add: mark_guard_def gap_guard_def)
  have mark: "timing_process_sample ops t on = (r1, t1\<lparr>prev_on := on\<rparr>)"
    if "mark_guard (count_sample t on) on"
  proof -
    from that have "on = 0" by (simp add: mark_guard_def)
    then have "gap_block ops t1 on r1 = (r1, t1)"
      by (simp add: gap_block_def gap_guard_def)
    then show ?thesis
      by (simp add: timing_process_sample_def m)
  qed
  have idle: "r1 = ELEM_NONE \<and> t1 = count_sample t on"
    if "\<not> mark_guard (count_sample t on) on"
    using that m by (simp add: mark_block_def)
  have "mark_guard (count_sample t on) on" if "r1 = ELEM_DIT \<or> r1 = ELEM_DAH"
  proof (rule ccontr)
    assume "\<not> mark_guard (count_sample t on) on"
    then have "r1 = ELEM_NONE" using idle by simp
    with that show False by (auto simp: ELEM_NONE_def ELEM_DIT_def ELEM_DAH_def)
  qed
  with mark have keep: "r1 = ELEM_DIT \<or> r1 = ELEM_DAH \<longrightarrow> fst (timing_process_sample ops t on) = r1"
    by auto
  have gap: "gap_guard t1 on \<longrightarrow> r1 = ELEM_NONE \<and> t1 = count_sample t on"
  proof
    assume "gap_guard t1 on"
    then have "on \<noteq> 0" by (simp add: gap_guard_def)
    then have "\<not> mark_guard (count_sample t on) on" by (simp add: mark_guard_def)
    then show "r1 = ELEM_NONE \<and> t1 = count_sample t on" by (rule idle)
  qed
  show ?thesis
    using excl mark keep gap by (simp add: m)
qed

lemma ema_mark_example:
  "fst (mark_block real_ops
     (count_sample ((timing_init real_ops TIMING_MODE_EMA 100 20 5 60 (3/10) (1/100))\<lparr>on_dur := 6, prev_on := 1\<rparr>) 0)
     0 ELEM_NONE) = ELEM_DIT"
  by (simp add: mark_block_def count_sample_def mark_guard_def timing_init_def
      classify_signal_ema_def Let_def real_ops_def)

theorem timing_sample_single_event_witness:
  "mark_guard (count_sample ((timing_init real_ops TIMING_MODE_EMA 100 20 5 60 (3/10) (1/100))\<lparr>on_dur := 6, prev_on := 1\<rparr>) 0) 0 \<and>
   fst (timing_process_sample real_ops
         ((timing_init real_ops TIMING_MODE_EMA 100 20 5 60 (3/10) (1/100))\<lparr>on_dur := 6, prev_on := 1\<rparr>) 0) = ELEM_DIT"
proof -
  let ?t = "(timing_init real_ops TIMING_MODE_EMA 100 20 5 60 (3/10) (1/100))\<lparr>on_dur := 6, prev_on := 1\<rparr>"
  have g: "mark_guard (count_sample ?t 0) 0"
    by (simp add: mark_guard_def count_sample_def timing_init_def)
  have "fst (mark_block real_ops (count_sample ?t 0) 0 ELEM_NONE) = ELEM_DIT"
    by (rule ema_mark_example)
  with g show ?thesis
    using timing_sample_single_event [of ?t 0 real_ops]
    by (simp add: Let_def split_beta)
qed

section \<open>Strings in the output buffer\<close>

lemma write_at_Nil [simp]: "write_at out b [] = out"
  by (rule ext) (auto simp: write_at_def)

lemma nat_shift: "b + int n \<le> x \<Longrightarrow> nat (x - (b + int n)) = nat (x - b) - n"
  by linarith

lemma write_at_append:
  "write_at (write_at out b xs) (b + int (length xs)) ys = write_at out b (xs @ ys)"
  by (rule ext) (auto simp: write_at_def nth_append nat_shift nat_less_iff)

lemma write_at_snoc:
  "(write_at out b xs)(b + int (length xs) := c) = write_at out b (xs @ [c])"
  by (rule ext) (auto simp: write_at_def nth_append nat_less_iff)

lemma memcpy_write_at:
  "0 \<le> word_len f \<Longrightarrow> word_len f \<le> 63 \<Longrightarrow>
   memcpy out b (word_buf f) (word_len f) = write_at out b (word_chars f)"
  by (rule ext) (auto simp: memcpy_def write_at_def word_chars_def size_t_of_def)

lemma length_word_chars: "0 \<le> word_len f \<Longrightarrow> int (length (word_chars f)) = word_len f"
  by (simp add: word_chars_def)

section \<open>Output filter: the warm-up latch\<close>

lemma chars_of_drop:
  assumes "0 \<le> i" and "i < n"
  shows "drop (nat i) (chars_of tx n) = tx i # drop (nat (i + 1)) (chars_of tx n)"
proof -
  have "drop (nat i) (chars_of tx n) = map (\<lambda>i. tx (int i)) [nat i..<nat n]"
    by (simp add: chars_of_def drop_map)
  also have "[nat i..<nat n] = nat i # [Suc (nat i)..<nat n]"
    using assms by (simp add: upt_conv_Cons)
  also have "map (\<lambda>i. tx (int i)) (nat i # [Suc (nat i)..<nat n])
               = tx i # map (\<lambda>i. tx (int i)) [Suc (nat i)..<nat n]"
    using assms by simp
  also have "map (\<lambda>i. tx (int i)) [Suc (nat i)..<nat n] = drop (nat (i + 1)) (chars_of tx n)"
    using assms by (simp add: chars_of_def drop_map nat_add_distrib)
  finally show ?thesis .
qed

lemma chars_of_drop_end:
  "n \<le> i \<Longrightarrow> drop (nat i) (chars_of tx n) = []"
  by (simp add: chars_of_def)

lemma word_chars_push:
  assumes "0 \<le> word_len f"
  shows "word_chars (f\<lparr>word_buf := (word_buf f)(word_len f := c), word_len := word_len f + 1\<rparr>)
           = word_chars f @ [c]"
proof -
  have n: "nat (word_len f + 1) = Suc (nat (word_len f))"
    using assms by simp
  have "map (\<lambda>i. ((word_buf f)(word_len f := c)) (int i)) [0..<nat (word_len f)]
          = map (\<lambda>i. word_buf f (int i)) [0..<nat (word_len f)]"
    by (rule map_cong) (use assms in auto)
  then show ?thesis
    using assms by (simp add: word_chars_def n)
qed

lemma word_chars_clear: "word_chars (f\<lparr>word_len := 0\<rparr>) = []"
  by (simp add: word_chars_def)

lemma memcpy_take:
  assumes "0 \<le> n" and "n \<le> word_len f" and "word_len f \<le> 63"
  shows "memcpy out b (word_buf f) n = write_at out b (take (nat n) (word_chars f))"
  using assms by (intro ext) (auto simp: memcpy_def write_at_def word_chars_def size_t_of_def)

lemma flush_warmed:
  assumes "warmed_up f \<noteq> 0" and "filter_ok f" and "0 \<le> out_len"
  shows "output_filter_flush f out base out_len =
           (min (word_len f) out_len,
            write_at out base (take (nat (min (word_len f) out_len)) (word_chars f)),
            f\<lparr>word_len := 0\<rparr>)"
proof (cases "word_len f = 0")
  case True
  then show ?thesis
    using assms by (simp add: output_filter_flush_def emit_word_def word_chars_def)
next
  case False
  have ok: "0 \<le> word_len f" "word_len f \<le> 63"
    using assms(2) by (simp_all add: filter_ok_def)
  have m: "memcpy out base (word_buf f) n = write_at out base (take (nat n) (word_chars f))"
    if "0 \<le> n" "n \<le> word_len f" for n
    using that ok by (intro memcpy_take) simp_all
  show ?thesis
  proof (cases "word_len f \<le> out_len")
    case True
    then show ?thesis
      using False assms(1) m [of "word_len f"] ok
      by (simp add: output_filter_flush_def emit_word_def Let_def)
  next
    case le: False
    then show ?thesis
      using False assms(1,3) m [of out_len]
      by (simp add: output_filter_flush_def emit_word_def Let_def)
  qed
qed

lemma write_at_take_append:
  assumes "0 \<le> room"
  shows "write_at (write_at out b (take (nat room) t)) (b + min (int (length t)) room)
           (take (nat (room - min (int (length t)) room)) ys)
         = write_at out b (take (nat room) (t @ ys))"
proof (cases "int (length t) \<le> room")
  case True
  then have "take (nat room) t = t" and "min (int (length t)) room = int (length t)"
    by simp_all
  moreover have "nat (room - int (length t)) = nat room - length t"
    using True by simp
  ultimately show ?thesis
    by (simp add: write_at_append)
next
  case False
  then have "min (int (length t)) room = room" by simp
  moreover have "take (nat room) (t @ ys) = take (nat room) t"
    using False by simp
  ultimately show ?thesis by simp
qed

lemma feed_char_warmed_space:
  assumes "warmed_up f \<noteq> 0" and "filter_ok f" and "0 \<le> w" and "w < out_len"
  shows "feed_char f (CHR '' '') out base out_len w =
           (min (w + int (length (if word_chars f = [] then [] else word_chars f @ [CHR '' '']))) out_len,
            write_at out (base + w) (take (nat (out_len - w))
               (if word_chars f = [] then [] else word_chars f @ [CHR '' ''])),
            f\<lparr>word_len := 0\<rparr>)"
proof (cases "word_len f = 0")
  case True
  then show ?thesis
    using assms by (simp add: feed_char_def emit_word_def word_chars_def)
next
  case False
  have ok: "0 < word_len f" "word_len f \<le> 63"
    using assms(2) False by (simp_all add: filter_ok_def)
  have len: "int (length (word_chars f)) = word_len f"
    using ok by (simp add: length_word_chars)
  then have ne: "word_chars f \<noteq> []"
    using ok by auto
  have m: "memcpy out (base + w) (word_buf f) n = write_at out (base + w) (take (nat n) (word_chars f))"
    if "0 \<le> n" "n \<le> word_len f" for n
    using that ok by (intro memcpy_take) simp_all
  show ?thesis
  proof (cases "w + word_len f < out_len")
    case True
    have "(write_at out (base + w) (word_chars f))(base + (w + word_len f) := CHR '' '')
            = write_at out (base + w) (word_chars f @ [CHR '' ''])"
      using write_at_snoc [of out "base + w" "word_chars f" "CHR '' ''"] len
      by (simp add: add.assoc)
    moreover have "take (nat (out_len - w)) (word_chars f @ [CHR '' '']) = word_chars f @ [CHR '' '']"
      using True len by simp
    ultimately show ?thesis
      using True False assms(1) ok ne len m [of "word_len f"]
      by (simp add: feed_char_def emit_word_def Let_def)
  next
    case nofit: False
    show ?thesis
    proof (cases "word_len f > out_len - w")
      case True
      have "take (nat (out_len - w)) (word_chars f @ [CHR '' '']) = take (nat (out_len - w)) (word_chars f)"
        using True len assms(4) by simp
      then show ?thesis
        using True False assms(1,3,4) ok ne len m [of "out_len - w"]
        by (simp add: feed_char_def emit_word_def Let_def)
    next
      case eq: False
      with nofit have e: "word_len f = out_len - w" by simp
      have "take (nat (out_len - w)) (word_chars f @ [CHR '' '']) = word_chars f"
        using e len by simp
      then show ?thesis
        using e False assms(1,3,4) ok ne len m [of "word_len f"]
        by (simp add: feed_char_def emit_word_def Let_def)
    qed
  qed
qed

lemma feed_loop_warmed:
  assumes "warmed_up f \<noteq> 0" and "filter_ok f" and "0 \<le> i" and "0 \<le> w" and "w \<le> out_len"
  shows "fst (feed_loop f tx tlen out base out_len i w)
           = min (w + int (length (spoken (word_chars f) (drop (nat i) (chars_of tx tlen))))) out_len \<and>
         fst (snd (feed_loop f tx tlen out base out_len i w))
           = write_at out (base + w) (take (nat (out_len - w))
               (spoken (word_chars f) (drop (nat i) (chars_of tx tlen)))) \<and>
         (w + int (length (spoken (word_chars f) (drop (nat i) (chars_of tx tlen)))) < out_len \<longrightarrow>
            word_chars (snd (snd (feed_loop f tx tlen out base out_len i w)))
              = pending (word_chars f) (drop (nat i) (chars_of tx tlen)))"
  using assms
proof (induction f tx tlen out base out_len i w rule: feed_loop.induct)
  case (1 f tx tlen out base out_len i w)
  let ?W = "word_chars f"
  show ?case
  proof (cases "i < tlen \<and> w < out_len")
    case False
    then have r: "feed_loop f tx tlen out base out_len i w = (w, out, f)"
      by (subst feed_loop.simps) auto
    show ?thesis
    proof (cases "i < tlen")
      case True
      with False "1.prems" have "w = out_len" by simp
      then show ?thesis using r by simp
    next
      case False
      then have "drop (nat i) (chars_of tx tlen) = []"
        by (simp add: chars_of_drop_end)
      then show ?thesis using r "1.prems" by simp
    qed
  next
    case True
    obtain w1 o1 f1 where step: "feed_char f (tx i) out base out_len w = (w1, o1, f1)"
      by (cases "feed_char f (tx i) out base out_len w")
    have loop: "feed_loop f tx tlen out base out_len i w = feed_loop f1 tx tlen o1 base out_len (i + 1) w1"
      using True step by (subst feed_loop.simps) simp
    have rest: "drop (nat i) (chars_of tx tlen) = tx i # drop (nat (i + 1)) (chars_of tx tlen)"
      using True "1.prems"(3) by (intro chars_of_drop) simp_all
    let ?cs = "drop (nat (i + 1)) (chars_of tx tlen)"
    have i1: "0 \<le> i + 1" using "1.prems"(3) by simp
    show ?thesis
    proof (cases "tx i = CHR '' ''")
      case sp: True
      let ?t = "if ?W = [] then [] else ?W @ [CHR '' '']"
      have w1: "w1 = min (w + int (length ?t)) out_len"
        and o1: "o1 = write_at out (base + w) (take (nat (out_len - w)) ?t)"
        and f1: "f1 = f\<lparr>word_len := 0\<rparr>"
        using step feed_char_warmed_space [OF "1.prems"(1,2,4), of out_len out base] True sp
        by simp_all
      have warm1: "warmed_up f1 \<noteq> 0" and ok1: "filter_ok f1" and wc1: "word_chars f1 = []"
        using "1.prems"(1,2) by (simp_all add: f1 filter_ok_def word_chars_clear)
      have b1: "0 \<le> w1" "w1 \<le> out_len"
        using "1.prems"(4,5) by (simp_all add: w1)
      note IH = "1.IH" [OF True refl step [symmetric] refl warm1 ok1 i1 b1, unfolded wc1]
      have T: "spoken ?W (tx i # ?cs) = ?t @ spoken [] ?cs"
        using sp by simp
      have room: "0 \<le> out_len - w" using "1.prems"(5) by simp
      have w1': "w1 = w + min (int (length ?t)) (out_len - w)"
        unfolding w1 by (simp add: min_def)
      have a: "min (w1 + int (length (spoken [] ?cs))) out_len
                 = min (w + int (length (?t @ spoken [] ?cs))) out_len"
        unfolding w1' by (simp add: min_def)
      have b: "write_at o1 (base + w1) (take (nat (out_len - w1)) (spoken [] ?cs))
                 = write_at out (base + w) (take (nat (out_len - w)) (?t @ spoken [] ?cs))"
        unfolding o1 w1'
        using write_at_take_append [OF room, of out "base + w" ?t "spoken [] ?cs"]
        by (simp add: algebra_simps)
      have c: "w + int (length (?t @ spoken [] ?cs)) < out_len \<longrightarrow>
                 w1 + int (length (spoken [] ?cs)) < out_len"
        unfolding w1' by (simp add: min_def)
      have p: "pending ?W (tx i # ?cs) = pending [] ?cs"
        using sp by simp
      show ?thesis
        unfolding loop rest T p using IH a b c by simp
    next
      case nsp: False
      let ?W1 = "if length ?W < 63 then ?W @ [tx i] else ?W"
      have ok: "0 \<le> word_len f" "word_len f \<le> 63"
        using "1.prems"(2) by (simp_all add: filter_ok_def)
      have len: "int (length ?W) = word_len f"
        using ok by (simp add: length_word_chars)
      have w1: "w1 = w" and o1: "o1 = out"
        using step nsp by (simp_all add: feed_char_def)
      have f1: "f1 = (if word_len f < 63
                      then f\<lparr>word_buf := (word_buf f)(word_len f := tx i), word_len := word_len f + 1\<rparr>
                      else f)"
        using step nsp by (simp add: feed_char_def OUTPUT_FILTER_MAX_WORD_def)
      have warm1: "warmed_up f1 \<noteq> 0" and ok1: "filter_ok f1"
        using "1.prems"(1,2) by (simp_all add: f1 filter_ok_def)
      have wc1: "word_chars f1 = ?W1"
        using ok len word_chars_push [OF ok(1), of "tx i"] by (simp add: f1)
      have b1: "0 \<le> w1" "w1 \<le> out_len"
        using "1.prems"(4,5) by (simp_all add: w1)
      note IH = "1.IH" [OF True refl step [symmetric] refl warm1 ok1 i1 b1, unfolded wc1 w1 o1]
      have T: "spoken ?W (tx i # ?cs) = spoken ?W1 ?cs"
        using nsp by simp
      have p: "pending ?W (tx i # ?cs) = pending ?W1 ?cs"
        using nsp by simp
      show ?thesis
        unfolding loop rest T p w1 o1 using IH by simp
    qed
  qed
qed

lemma emit_word_warmed:
  "warmed_up f \<noteq> 0 \<Longrightarrow>
   emit_word f out base out_len =
     (if word_len f = 0 then (0, out, f)
      else (min (word_len f) out_len, memcpy out base (word_buf f) (min (word_len f) out_len), f))"
  by (simp add: emit_word_def Let_def min_def)

lemma emit_word_keeps_warmed:
  "warmed_up f \<noteq> 0 \<Longrightarrow> warmed_up (snd (snd (emit_word f out base out_len))) = warmed_up f"
  by (simp add: emit_word_warmed)

lemma feed_char_keeps_warmed:
  "warmed_up f \<noteq> 0 \<Longrightarrow> warmed_up (snd (snd (feed_char f c out base out_len written))) = warmed_up f"
  by (simp add: feed_char_def emit_word_warmed Let_def split_beta)

lemma feed_loop_keeps_warmed:
  "warmed_up f \<noteq> 0 \<Longrightarrow>
   warmed_up (snd (snd (feed_loop f tx tlen out base out_len i written))) = warmed_up f"
proof (induction f tx tlen out base out_len i written rule: feed_loop.induct)
  case (1 f tx tlen out base out_len i written)
  show ?case
  proof (cases "i < tlen \<and> written < out_len")
    case True
    obtain w1 o1 f1 where step: "feed_char f (tx i) out base out_len written = (w1, o1, f1)"
      by (cases "feed_char f (tx i) out base out_len written")
    have f1: "warmed_up f1 = warmed_up f"
      using feed_char_keeps_warmed [OF "1.prems", of "tx i" out base out_len written] step by simp
    then have "warmed_up f1 \<noteq> 0" using "1.prems" by simp
    then have "warmed_up (snd (snd (feed_loop f1 tx tlen o1 base out_len (i + 1) w1))) = warmed_up f1"
      using "1.IH" [OF True refl step [symmetric] refl] by simp
    then show ?thesis
      using True step f1 by (subst feed_loop.simps) simp
  next
    case False
    then show ?thesis by (subst feed_loop.simps) auto
  qed
qed

lemma run_call_keeps_warmed:
  "warmed_up (snd s) \<noteq> 0 \<Longrightarrow> warmed_up (snd (run_call s c)) = warmed_up (snd s)"
proof (cases s)
  case (Pair out f)
  assume "warmed_up (snd s) \<noteq> 0"
  with Pair have w: "warmed_up f \<noteq> 0" by simp
  show ?thesis
  proof (cases c)
    case (Feed tx tlen base out_len)
    then show ?thesis
      using Pair feed_loop_keeps_warmed [OF w] by (simp add: output_filter_feed_def)
  next
    case (Flush base out_len)
    then show ?thesis
      using Pair emit_word_keeps_warmed [OF w, of out base out_len]
      by (simp add: output_filter_flush_def split_beta)
  qed
qed

lemma run_calls_keeps_warmed:
  "warmed_up (snd s) \<noteq> 0 \<Longrightarrow> warmed_up (snd (run_calls s calls)) = warmed_up (snd s)"
  unfolding run_calls_def
proof (induction calls arbitrary: s)
  case Nil
  then show ?case by simp
next
  case (Cons c calls)
  have "warmed_up (snd (run_call s c)) = warmed_up (snd s)"
    using Cons.prems by (rule run_call_keeps_warmed)
  moreover from this Cons.prems have "warmed_up (snd (run_call s c)) \<noteq> 0" by simp
  ultimately show ?case using Cons.IH [of "run_call s c"] by simp
qed

lemma emit_word_keeps_ok:
  "filter_ok f \<Longrightarrow> filter_ok (snd (snd (emit_word f out base out_len)))"
  by (simp add: emit_word_def Let_def filter_ok_def)

lemma feed_char_keeps_ok:
  "filter_ok f \<Longrightarrow> filter_ok (snd (snd (feed_char f c out base out_len written)))"
  by (simp add: feed_char_def Let_def split_beta filter_ok_def OUTPUT_FILTER_MAX_WORD_def)

lemma feed_loop_keeps_ok:
  "filter_ok f \<Longrightarrow> filter_ok (snd (snd (feed_loop f tx tlen out base out_len i written)))"
proof (induction f tx tlen out base out_len i written rule: feed_loop.induct)
  case (1 f tx tlen out base out_len i written)
  show ?case
  proof (cases "i < tlen \<and> written < out_len")
    case True
    obtain w1 o1 f1 where step: "feed_char f (tx i) out base out_len written = (w1, o1, f1)"
      by (cases "feed_char f (tx i) out base out_len written")
    have "filter_ok f1"
      using feed_char_keeps_ok [OF "1.prems", of "tx i" out base out_len written] step by simp
    then have "filter_ok (snd (snd (feed_loop f1 tx tlen o1 base out_len (i + 1) w1)))"
      using "1.IH" [OF True refl step [symmetric] refl] by simp
    then show ?thesis
      using True step by (subst feed_loop.simps) simp
  next
    case False
    then show ?thesis using "1.prems" by (subst feed_loop.simps) auto
  qed
qed

lemma run_call_keeps_ok:
  "filter_ok (snd s) \<Longrightarrow> filter_ok (snd (run_call s c))"
proof (cases s)
  case (Pair out f)
  assume "filter_ok (snd s)"
  with Pair have ok: "filter_ok f" by simp
  show ?thesis
  proof (cases c)
    case (Feed tx tlen base out_len)
    then show ?thesis
      using Pair feed_loop_keeps_ok [OF ok] by (simp add: output_filter_feed_def)
  next
    case (Flush base out_len)
    then show ?thesis
      using Pair emit_word_keeps_ok [OF ok, of out base out_len]
      by (simp add: output_filter_flush_def split_beta filter_ok_def)
  qed
qed

lemma run_calls_keeps_ok:
  "filter_ok (snd s) \<Longrightarrow> filter_ok (snd (run_calls s calls))"
  unfolding run_calls_def
proof (induction calls arbitrary: s)
  case Nil
  then show ?case by simp
next
  case (Cons c calls)
  then show ?case using run_call_keeps_ok [of s c] by simp
qed

lemma feed_warmed:
  assumes "warmed_up f \<noteq> 0" and "filter_ok f" and "0 \<le> out_len"
  shows "fst (output_filter_feed f tx tlen out base out_len)
           = min (int (length (spoken (word_chars f) (chars_of tx tlen)))) out_len"
    and "fst (snd (output_filter_feed f tx tlen out base out_len))
           = write_at out base (take (nat (min (int (length (spoken (word_chars f) (chars_of tx tlen)))) out_len))
               (spoken (word_chars f) (chars_of tx tlen)))"
    and "int (length (spoken (word_chars f) (chars_of tx tlen))) < out_len \<Longrightarrow>
           word_chars (snd (snd (output_filter_feed f tx tlen out base out_len)))
             = pending (word_chars f) (chars_of tx tlen)"
  using feed_loop_warmed [OF assms(1,2) _ _ assms(3), of 0 tx tlen out base]
  by (simp_all add: output_filter_feed_def min_def)

lemma size_t_of_id: "0 \<le> n \<Longrightarrow> n < 2 ^ 64 \<Longrightarrow> size_t_of n = n"
  by (simp add: size_t_of_def)

text \<open>
  C8.  From a filter whose \<open>warmed_up\<close> is set, no sequence of \<open>output_filter_feed\<close> and
  \<open>output_filter_flush\<close> calls changes \<open>warmed_up\<close>, and the calls keep the representation
  invariant of the word buffer; \<open>output_filter_reset\<close> clears \<open>warmed_up\<close>.  While it is set
  nothing is suppressed, and the output is cut only by the capacity \<open>out_len\<close>: a call of
  \<open>output_filter_feed\<close> returns and writes the first \<open>min (length t) out_len\<close> characters of
  the verbatim text \<open>t\<close> (every completed word followed by a space), and when \<open>t\<close> is shorter
  than \<open>out_len\<close> it leaves the unfinished word buffered; a call of \<open>output_filter_flush\<close>
  returns and writes the first \<open>min word_len out_len\<close> characters of the buffered word and
  empties the buffer.
\<close>

theorem warmed_up_latched:
  assumes "warmed_up f \<noteq> 0"
  shows "warmed_up (snd (run_calls (out, f) calls)) = warmed_up f \<and>
         warmed_up (output_filter_reset f) = 0 \<and>
         (filter_ok f \<longrightarrow> filter_ok (snd (run_calls (out, f) calls))) \<and>
         (filter_ok f \<and> 0 \<le> out_len \<longrightarrow>
            (let t = spoken (word_chars f) (chars_of tx tlen);
                 n = min (int (length t)) out_len;
                 r = output_filter_feed f tx tlen out base out_len
             in fst r = n \<and> fst (snd r) = write_at out base (take (nat n) t) \<and>
                (int (length t) < out_len \<longrightarrow>
                   word_chars (snd (snd r)) = pending (word_chars f) (chars_of tx tlen))) \<and>
            (let n = min (word_len f) out_len;
                 r = output_filter_flush f out base out_len
             in fst r = n \<and> fst (snd r) = write_at out base (take (nat n) (word_chars f)) \<and>
                word_len (snd (snd r)) = 0))"
proof -
  have a: "warmed_up (snd (run_calls (out, f) calls)) = warmed_up f"
    using run_calls_keeps_warmed [of "(out, f)" calls] assms by simp
  have b: "warmed_up (output_filter_reset f) = 0"
    by (simp add: output_filter_reset_def)
  have c: "filter_ok f \<longrightarrow> filter_ok (snd (run_calls (out, f) calls))"
    using run_calls_keeps_ok [of "(out, f)" calls] by simp
  have d: "let t = spoken (word_chars f) (chars_of tx tlen);
               n = min (int (length t)) out_len;
               r = output_filter_feed f tx tlen out base out_len
           in fst r = n \<and> fst (snd r) = write_at out base (take (nat n) t) \<and>
              (int (length t) < out_len \<longrightarrow>
                 word_chars (snd (snd r)) = pending (word_chars f) (chars_of tx tlen))"
    if "filter_ok f" "0 \<le> out_len"
    unfolding Let_def using feed_warmed [OF assms that, of tx tlen out base] by blast
  have e: "let n = min (word_len f) out_len;
               r = output_filter_flush f out base out_len
           in fst r = n \<and> fst (snd r) = write_at out base (take (nat n) (word_chars f)) \<and>
              word_len (snd (snd r)) = 0"
    if "filter_ok f" "0 \<le> out_len"
    unfolding Let_def using flush_warmed [OF assms that, of out base] by simp
  show ?thesis using a b c d e by blast
qed

lemma hello_word: "word_chars hello_filter = ''HELLO''"
  by code_simp

theorem warmed_up_latched_witness:
  "warmed_up hello_filter \<noteq> 0 \<and> filter_ok hello_filter \<and> (0::int) \<le> 16 \<and>
   warmed_up (snd (run_calls (zero_buf, hello_filter)
      [Feed (write_at zero_buf 0 ''! CQ D'') 6 0 16, Flush 0 16])) = 1 \<and>
   fst (output_filter_feed hello_filter (write_at zero_buf 0 ''! CQ D'') 6 zero_buf 0 16) = 10 \<and>
   fst (snd (output_filter_feed hello_filter (write_at zero_buf 0 ''! CQ D'') 6 zero_buf 0 16))
     = write_at zero_buf 0 ''HELLO! CQ '' \<and>
   word_chars (snd (snd (output_filter_feed hello_filter (write_at zero_buf 0 ''! CQ D'') 6 zero_buf 0 16)))
     = ''D'' \<and>
   fst (output_filter_flush hello_filter zero_buf 0 16) = 5 \<and>
   fst (snd (output_filter_flush hello_filter zero_buf 0 16)) = write_at zero_buf 0 ''HELLO''"
proof -
  let ?tx = "write_at zero_buf 0 ''! CQ D''"
  let ?calls = "[Feed ?tx 6 0 16, Flush 0 16]"
  have w: "warmed_up hello_filter \<noteq> 0" and w1: "warmed_up hello_filter = 1"
    by (simp_all add: hello_filter_def)
  have ok: "filter_ok hello_filter"
    by (simp add: hello_filter_def filter_ok_def)
  have le: "(0::int) \<le> 16" by simp
  have sp: "spoken ''HELLO'' (chars_of ?tx 6) = ''HELLO! CQ ''"
    and pe: "pending ''HELLO'' (chars_of ?tx 6) = ''D''"
    by code_simp+
  have wl: "word_len hello_filter = 5"
    by (simp add: hello_filter_def)
  note t = warmed_up_latched [OF w, of zero_buf ?calls 16 ?tx 6 0, unfolded Let_def hello_word sp pe wl]
  show ?thesis
    using w ok le t w1 by simp
qed

text \<open>
  A word is not always emitted whole: with \<open>HELLO\<close> buffered in a warmed-up filter, feeding
  a space with \<open>out_len = 3\<close> writes \<open>HEL\<close>, returns 3 and discards the rest of the word.
\<close>

theorem warmed_word_cut_short:
  "warmed_up hello_filter \<noteq> 0 \<and>
   fst (output_filter_feed hello_filter (write_at zero_buf 0 '' '') 1 zero_buf 0 3) = 3 \<and>
   map (fst (snd (output_filter_feed hello_filter (write_at zero_buf 0 '' '') 1 zero_buf 0 3)))
       [0, 1, 2, 3, 4, 5] = ''HEL'' @ [CHR 0x00, CHR 0x00, CHR 0x00] \<and>
   word_len (snd (snd (output_filter_feed hello_filter (write_at zero_buf 0 '' '') 1 zero_buf 0 3))) = 0"
  by code_simp

section \<open>Decoder output stays inside the buffer\<close>

lemma advances_refl: "w \<le> out_len \<Longrightarrow> advances base out_len w out w out"
  by (simp add: advances_def)

lemma advances_trans:
  "advances base out_len w out w1 out1 \<Longrightarrow> advances base out_len w1 out1 w2 out2 \<Longrightarrow>
   advances base out_len w out w2 out2"
  by (auto simp: advances_def)

lemma emit_word_bounded:
  assumes "filter_ok f" and "0 \<le> room"
  obtains n out' f' where "emit_word f out base room = (n, out', f')"
    and "0 \<le> n" and "n \<le> room" and "\<forall>j. j < base \<or> base + n \<le> j \<longrightarrow> out' j = out j"
    and "word_len f' = word_len f" and "word_buf f' = word_buf f"
proof -
  let ?n = "if word_len f > room then room else word_len f"
  have n: "0 \<le> ?n" "?n \<le> room" "?n < 2 ^ 64"
    using assms by (auto simp: filter_ok_def)
  have s: "size_t_of ?n = ?n" using n(1,3) by (rule size_t_of_id)
  have fr: "\<forall>j. j < base \<or> base + ?n \<le> j \<longrightarrow> memcpy out base (word_buf f) ?n j = out j"
    using s by (auto simp: memcpy_def)
  show thesis
  proof (cases "word_len f = 0 \<or> (warmed_up f = 0 \<and> word_len f < min_word_length f \<and> all_noise_from f 0)")
    case True
    then have "emit_word f out base room = (0, out, f)"
      by (auto simp: emit_word_def)
    then show ?thesis using assms(2) that [of 0 out f] by simp
  next
    case False
    then have "emit_word f out base room
                 = (?n, memcpy out base (word_buf f) ?n, if warmed_up f \<noteq> 0 then f else f\<lparr>warmed_up := 1\<rparr>)"
      by (auto simp: emit_word_def Let_def)
    then show ?thesis
      using n fr that [of ?n "memcpy out base (word_buf f) ?n" "if warmed_up f \<noteq> 0 then f else f\<lparr>warmed_up := 1\<rparr>"]
      by simp
  qed
qed

lemma feed_char_advances:
  assumes "filter_ok f" and "0 \<le> written" and "written < out_len"
  shows "advances base out_len written out
           (fst (feed_char f c out base out_len written))
           (fst (snd (feed_char f c out base out_len written))) \<and>
         filter_ok (snd (snd (feed_char f c out base out_len written)))"
proof (cases "c = CHR '' ''")
  case True
  have room: "0 \<le> out_len - written" using assms by simp
  obtain n out1 f1 where e: "emit_word f out (base + written) (out_len - written) = (n, out1, f1)"
    and n: "0 \<le> n" "n \<le> out_len - written"
    and fr: "\<forall>j. j < base + written \<or> base + written + n \<le> j \<longrightarrow> out1 j = out j"
    using emit_word_bounded [OF assms(1) room, of out "base + written"] by metis
  show ?thesis
    using True e n fr by (auto simp: feed_char_def advances_def filter_ok_def)
next
  case False
  then show ?thesis
    using assms by (auto simp: feed_char_def advances_def filter_ok_def OUTPUT_FILTER_MAX_WORD_def)
qed

lemma feed_loop_advances:
  "filter_ok f \<Longrightarrow> 0 \<le> written \<Longrightarrow> written \<le> out_len \<Longrightarrow>
   advances base out_len written out
     (fst (feed_loop f tx tlen out base out_len i written))
     (fst (snd (feed_loop f tx tlen out base out_len i written))) \<and>
   filter_ok (snd (snd (feed_loop f tx tlen out base out_len i written)))"
proof (induction f tx tlen out base out_len i written rule: feed_loop.induct)
  case (1 f tx tlen out base out_len i written)
  show ?case
  proof (cases "i < tlen \<and> written < out_len")
    case True
    obtain w1 o1 f1 where step: "feed_char f (tx i) out base out_len written = (w1, o1, f1)"
      by (cases "feed_char f (tx i) out base out_len written")
    have a: "advances base out_len written out w1 o1" and ok: "filter_ok f1"
      using feed_char_advances [OF "1.prems"(1,2), of out_len base out "tx i"] True step by simp_all
    then have w1: "0 \<le> w1" "w1 \<le> out_len"
      using "1.prems"(2) by (auto simp: advances_def)
    have ih: "advances base out_len w1 o1
                (fst (feed_loop f1 tx tlen o1 base out_len (i + 1) w1))
                (fst (snd (feed_loop f1 tx tlen o1 base out_len (i + 1) w1))) \<and>
              filter_ok (snd (snd (feed_loop f1 tx tlen o1 base out_len (i + 1) w1)))"
      using "1.IH" [OF True refl step [symmetric] refl ok w1] .
    have unf: "feed_loop f tx tlen out base out_len i written = feed_loop f1 tx tlen o1 base out_len (i + 1) w1"
      using True step by (subst feed_loop.simps) simp
    show ?thesis
      unfolding unf using ih advances_trans [OF a] by blast
  next
    case False
    then have "feed_loop f tx tlen out base out_len i written = (written, out, f)"
      by (subst feed_loop.simps) auto
    then show ?thesis
      using "1.prems" by (simp add: advances_refl)
  qed
qed

lemma output_filter_feed_advances:
  assumes "filter_ok f" and "0 \<le> out_len"
  shows "advances base out_len 0 out
           (fst (output_filter_feed f tx tlen out base out_len))
           (fst (snd (output_filter_feed f tx tlen out base out_len))) \<and>
         filter_ok (snd (snd (output_filter_feed f tx tlen out base out_len)))"
  unfolding output_filter_feed_def
  using feed_loop_advances [OF assms(1), of 0 out_len] assms(2) by simp

lemma pattern_feed_out_filter:
  "out_filter (snd (snd (pattern_feed dec elem po n))) = out_filter dec"
  by (simp add: pattern_feed_def Let_def split_beta)

lemma pattern_flush_out_filter:
  "out_filter (snd (snd (pattern_flush dec po n))) = out_filter dec"
  by (simp add: pattern_flush_def Let_def split_beta)

lemma feed_at_advances:
  assumes "filter_ok f" and "0 \<le> tw" and "tw \<le> out_len"
  shows "advances 0 out_len tw out
           (tw + fst (output_filter_feed f tx tlen out tw (out_len - tw)))
           (fst (snd (output_filter_feed f tx tlen out tw (out_len - tw)))) \<and>
         filter_ok (snd (snd (output_filter_feed f tx tlen out tw (out_len - tw))))"
  using output_filter_feed_advances [OF assms(1), of "out_len - tw" tw out tx tlen] assms(2,3)
  by (auto simp: advances_def)

lemma emit_element_advances:
  assumes "filter_ok (out_filter dec)" and "0 \<le> tw" and "tw \<le> out_len"
  shows "advances 0 out_len tw out
           (fst (emit_element dec elem out out_len tw))
           (fst (snd (emit_element dec elem out out_len tw))) \<and>
         filter_ok (out_filter (snd (snd (emit_element dec elem out out_len tw))))"
proof -
  obtain pat_n pat_out dec1 where pf: "pattern_feed dec elem zero_buf 4 = (pat_n, pat_out, dec1)"
    by (cases "pattern_feed dec elem zero_buf 4")
  have ok1: "filter_ok (out_filter dec1)"
    using pattern_feed_out_filter [of dec elem zero_buf 4] pf assms(1) by simp
  show ?thesis
  proof (cases "pat_n > 0")
    case True
    then show ?thesis
      using pf feed_at_advances [OF ok1 assms(2,3), of out pat_out pat_n]
      by (simp add: emit_element_def split_beta)
  next
    case False
    then show ?thesis
      using pf ok1 assms by (simp add: emit_element_def advances_refl)
  qed
qed

lemma sample_loop_advances:
  "filter_ok (out_filter dec) \<Longrightarrow> 0 \<le> tw \<Longrightarrow> tw \<le> out_len \<Longrightarrow>
   advances 0 out_len tw out
     (fst (sample_loop ops dec on_off chunk out out_len i tw))
     (fst (snd (sample_loop ops dec on_off chunk out out_len i tw))) \<and>
   filter_ok (out_filter (snd (snd (sample_loop ops dec on_off chunk out out_len i tw))))"
proof (induction ops dec on_off chunk out out_len i tw rule: sample_loop.induct)
  case (1 ops dec on_off chunk out out_len i tw)
  show ?case
  proof (cases "i < chunk \<and> tw < out_len")
    case True
    obtain elem tm where tp: "timing_process_sample ops (timing dec) (on_off i) = (elem, tm)"
      by (cases "timing_process_sample ops (timing dec) (on_off i)")
    define dec1 where "dec1 = dec\<lparr>timing := tm\<rparr>"
    define r where "r = (if elem \<noteq> ELEM_NONE then emit_element dec1 elem out out_len tw else (tw, out, dec1))"
    obtain tw1 out1 dec2 where r: "r = (tw1, out1, dec2)" by (cases r)
    have ok1: "filter_ok (out_filter dec1)"
      using "1.prems"(1) by (simp add: dec1_def)
    have a: "advances 0 out_len tw out tw1 out1 \<and> filter_ok (out_filter dec2)"
    proof (cases "elem \<noteq> ELEM_NONE")
      case True
      then show ?thesis
        using emit_element_advances [OF ok1 "1.prems"(2,3), of out elem] r by (simp add: r_def)
    next
      case False
      then show ?thesis
        using r ok1 "1.prems" by (simp add: r_def advances_refl)
    qed
    then have b: "0 \<le> tw1" "tw1 \<le> out_len"
      using "1.prems"(2) by (auto simp: advances_def)
    have ih: "advances 0 out_len tw1 out1
                (fst (sample_loop ops dec2 on_off chunk out1 out_len (i + 1) tw1))
                (fst (snd (sample_loop ops dec2 on_off chunk out1 out_len (i + 1) tw1))) \<and>
              filter_ok (out_filter (snd (snd (sample_loop ops dec2 on_off chunk out1 out_len (i + 1) tw1))))"
      using "1.IH" [OF True tp [symmetric] refl dec1_def [symmetric, THEN sym]] r a b
      unfolding r_def dec1_def by (metis (no_types, lifting))
    have unf: "sample_loop ops dec on_off chunk out out_len i tw
                 = sample_loop ops dec2 on_off chunk out1 out_len (i + 1) tw1"
      using True tp r unfolding r_def dec1_def by (subst sample_loop.simps) (simp add: Let_def)
    show ?thesis
      unfolding unf using ih a advances_trans by blast
  next
    case False
    then have "sample_loop ops dec on_off chunk out out_len i tw = (tw, out, dec)"
      by (subst sample_loop.simps) auto
    then show ?thesis
      using "1.prems" by (simp add: advances_refl)
  qed
qed

lemma segment_loop_advances:
  "filter_ok (out_filter dec) \<Longrightarrow> 0 \<le> tw \<Longrightarrow> tw \<le> out_len \<Longrightarrow>
   advances 0 out_len tw out
     (fst (segment_loop ops dec audio n out out_len processed tw))
     (fst (snd (segment_loop ops dec audio n out out_len processed tw))) \<and>
   filter_ok (out_filter (snd (snd (segment_loop ops dec audio n out out_len processed tw))))"
proof (induction ops dec audio n out out_len processed tw rule: segment_loop.induct)
  case (1 ops dec audio n out out_len processed tw)
  show ?case
  proof (cases "processed < n \<and> tw < out_len")
    case True
    let ?chunk = "if n - processed > 4096 then 4096 else n - processed"
    let ?work0 = "\<lambda>i. if 0 \<le> i \<and> i < ?chunk then audio (processed + i) else f_lit ops 0 0"
    obtain bp work where fb: "(if use_bandpass dec \<noteq> 0
                              then iir_filter_process ops (bandpass dec) ?work0 ?chunk
                              else (bandpass dec, ?work0)) = (bp, work)"
      by (cases "if use_bandpass dec \<noteq> 0
                              then iir_filter_process ops (bandpass dec) ?work0 ?chunk
                              else (bandpass dec, ?work0)")
    obtain env on_off where ep: "envelope_process ops (envelope dec) work (\<lambda>_. 0) ?chunk = (env, on_off)"
      by (cases "envelope_process ops (envelope dec) work (\<lambda>_. 0) ?chunk")
    let ?dec0 = "dec\<lparr>bandpass := bp, envelope := env\<rparr>"
    obtain tw1 out1 dec1 where sl: "sample_loop ops ?dec0 on_off ?chunk out out_len 0 tw = (tw1, out1, dec1)"
      by (cases "sample_loop ops ?dec0 on_off ?chunk out out_len 0 tw")
    have ok0: "filter_ok (out_filter ?dec0)"
      using "1.prems"(1) by simp
    have a: "advances 0 out_len tw out tw1 out1" and ok1: "filter_ok (out_filter dec1)"
      using sample_loop_advances [OF ok0 "1.prems"(2,3), of out ops on_off ?chunk 0] sl by simp_all
    then have b: "0 \<le> tw1" "tw1 \<le> out_len"
      using "1.prems"(2) by (auto simp: advances_def)
    have ih: "advances 0 out_len tw1 out1
                (fst (segment_loop ops dec1 audio n out1 out_len (processed + ?chunk) tw1))
                (fst (snd (segment_loop ops dec1 audio n out1 out_len (processed + ?chunk) tw1))) \<and>
              filter_ok (out_filter (snd (snd (segment_loop ops dec1 audio n out1 out_len (processed + ?chunk) tw1))))"
      using "1.IH" [OF True refl refl refl fb [symmetric] refl ep [symmetric] refl sl [symmetric] refl ok1 b] .
    have unf: "segment_loop ops dec audio n out out_len processed tw
                 = segment_loop ops dec1 audio n out1 out_len (processed + ?chunk) tw1"
      using True fb ep sl
      by (subst segment_loop.simps) (simp add: Let_def)
    show ?thesis
      unfolding unf using ih a advances_trans by blast
  next
    case False
    then have "segment_loop ops dec audio n out out_len processed tw = (tw, out, dec)"
      by (subst segment_loop.simps) auto
    then show ?thesis
      using "1.prems" by (simp add: advances_refl)
  qed
qed

lemma process_advances:
  assumes "filter_ok (out_filter dec)" and "0 \<le> out_len"
  shows "advances 0 out_len 0 out
           (fst (cw_decoder_process ops dec audio out out_len))
           (fst (snd (cw_decoder_process ops dec audio out out_len))) \<and>
         filter_ok (out_filter (snd (snd (cw_decoder_process ops dec audio out out_len))))"
  using segment_loop_advances [OF assms(1), of 0 out_len out ops "\<lambda>i. audio ! nat i" "int (length audio)" 0]
    assms
  by (simp add: cw_decoder_process_def advances_refl)

lemma flush_advances:
  assumes "filter_ok f" and "0 \<le> tw" and "tw \<le> out_len"
  shows "advances 0 out_len tw out
           (tw + fst (output_filter_flush f out tw (out_len - tw)))
           (fst (snd (output_filter_flush f out tw (out_len - tw)))) \<and>
         filter_ok (snd (snd (output_filter_flush f out tw (out_len - tw))))"
proof -
  have room: "0 \<le> out_len - tw" using assms by simp
  obtain n out1 f1 where e: "emit_word f out tw (out_len - tw) = (n, out1, f1)"
    and n: "0 \<le> n" "n \<le> out_len - tw"
    and fr: "\<forall>j. j < tw \<or> tw + n \<le> j \<longrightarrow> out1 j = out j"
    using emit_word_bounded [OF assms(1) room, of out tw] by metis
  show ?thesis
    using e n fr by (auto simp: output_filter_flush_def advances_def filter_ok_def)
qed

lemma finalize_advances:
  assumes "filter_ok (out_filter dec)" and "0 \<le> out_len"
  shows "advances 0 out_len 0 out
           (fst (cw_decoder_finalize ops dec out out_len))
           (fst (snd (cw_decoder_finalize ops dec out out_len))) \<and>
         filter_ok (out_filter (snd (snd (cw_decoder_finalize ops dec out out_len))))"
proof -
  obtain elem tm where tf: "timing_finalize ops (timing dec) = (elem, tm)"
    by (cases "timing_finalize ops (timing dec)")
  let ?dec1 = "dec\<lparr>timing := tm\<rparr>"
  obtain w1 out1 dec2 where s1:
    "(if elem \<noteq> ELEM_NONE then emit_element ?dec1 elem out out_len 0 else (0, out, ?dec1)) = (w1, out1, dec2)"
    by (cases "if elem \<noteq> ELEM_NONE then emit_element ?dec1 elem out out_len 0 else (0, out, ?dec1)")
  have ok1: "filter_ok (out_filter ?dec1)" using assms(1) by simp
  have a1: "advances 0 out_len 0 out w1 out1 \<and> filter_ok (out_filter dec2)"
  proof (cases "elem \<noteq> ELEM_NONE")
    case True
    then show ?thesis
      using emit_element_advances [where dec = ?dec1 and tw = 0 and out_len = out_len and out = out and elem = elem]
        ok1 assms(2) s1 by simp
  next
    case False
    then show ?thesis using s1 ok1 assms(2) by (auto simp: advances_refl)
  qed
  then have w1: "0 \<le> w1" "w1 \<le> out_len" by (auto simp: advances_def)
  obtain pat_n pat_out dec3 where pf: "pattern_flush dec2 zero_buf 4 = (pat_n, pat_out, dec3)"
    by (cases "pattern_flush dec2 zero_buf 4")
  have ok3: "filter_ok (out_filter dec3)"
    using pattern_flush_out_filter [of dec2 zero_buf 4] pf a1 by simp
  obtain w2 out2 dec4 where s2:
    "(if pat_n > 0
      then (let (filt_n, ob, f1) = output_filter_feed (out_filter dec3) pat_out pat_n out1 w1 (out_len - w1)
            in (w1 + filt_n, ob, dec3\<lparr>out_filter := f1\<rparr>))
      else (w1, out1, dec3)) = (w2, out2, dec4)"
    by (cases "if pat_n > 0
      then (let (filt_n, ob, f1) = output_filter_feed (out_filter dec3) pat_out pat_n out1 w1 (out_len - w1)
            in (w1 + filt_n, ob, dec3\<lparr>out_filter := f1\<rparr>))
      else (w1, out1, dec3)")
  have a2: "advances 0 out_len w1 out1 w2 out2 \<and> filter_ok (out_filter dec4)"
  proof (cases "pat_n > 0")
    case True
    then show ?thesis
      using feed_at_advances [OF ok3 w1, of out1 pat_out pat_n] s2 by (auto simp: split_beta)
  next
    case False
    then show ?thesis using s2 ok3 w1 by (auto simp: advances_refl)
  qed
  then have w2: "0 \<le> w2" "w2 \<le> out_len" using w1 by (auto simp: advances_def)
  have a3: "advances 0 out_len w2 out2
              (w2 + fst (output_filter_flush (out_filter dec4) out2 w2 (out_len - w2)))
              (fst (snd (output_filter_flush (out_filter dec4) out2 w2 (out_len - w2)))) \<and>
            filter_ok (snd (snd (output_filter_flush (out_filter dec4) out2 w2 (out_len - w2))))"
    using flush_advances [where f = "out_filter dec4" and tw = w2 and out_len = out_len and out = out2] w2 a2
    by simp
  have fin: "cw_decoder_finalize ops dec out out_len =
               (w2 + fst (output_filter_flush (out_filter dec4) out2 w2 (out_len - w2)),
                fst (snd (output_filter_flush (out_filter dec4) out2 w2 (out_len - w2))),
                dec4\<lparr>out_filter := snd (snd (output_filter_flush (out_filter dec4) out2 w2 (out_len - w2)))\<rparr>)"
    using tf s1 pf s2
    by (cases "elem \<noteq> ELEM_NONE"; cases "pat_n > 0")
       (simp_all add: cw_decoder_finalize_def Let_def split_beta)
  have "advances 0 out_len 0 out
          (w2 + fst (output_filter_flush (out_filter dec4) out2 w2 (out_len - w2)))
          (fst (snd (output_filter_flush (out_filter dec4) out2 w2 (out_len - w2))))"
    using a1 a2 a3 advances_trans by blast
  then show ?thesis
    unfolding fin using a3 by simp
qed

lemma create_filter_ok:
  "cw_decoder_create ops db dl a c = Some dec \<Longrightarrow> filter_ok (out_filter dec) \<and> pattern_len dec = 0"
  by (auto simp: cw_decoder_create_def Let_def split_beta filter_ok_def output_filter_init_def
      split: if_splits)

lemma reset_filter_ok: "filter_ok (out_filter (cw_decoder_reset ops dec))"
  by (simp add: cw_decoder_reset_def Let_def filter_ok_def output_filter_reset_def)

text \<open>
  C7.  For a decoder whose word buffer satisfies its representation invariant (as every
  decoder made by \<open>cw_decoder_create\<close> and used through the interface does) and every
  \<open>out_len \<ge> 0\<close>: \<open>cw_decoder_process\<close>, on any audio, and \<open>cw_decoder_finalize\<close> return
  a count between 0 and \<open>out_len\<close>, leave every cell of the output buffer outside
  \<open>0 .. written - 1\<close> as it was (so nothing is stored at or beyond \<open>out_len\<close>), and
  keep the invariant.
\<close>

theorem decoder_output_within_bounds:
  assumes "filter_ok (out_filter dec)" and "0 \<le> out_len"
  shows "(let (written, out', dec') = cw_decoder_process ops dec audio out out_len
          in 0 \<le> written \<and> written \<le> out_len \<and>
             (\<forall>j. j < 0 \<or> written \<le> j \<longrightarrow> out' j = out j) \<and>
             filter_ok (out_filter dec')) \<and>
         (let (written, out', dec') = cw_decoder_finalize ops dec out out_len
          in 0 \<le> written \<and> written \<le> out_len \<and>
             (\<forall>j. j < 0 \<or> written \<le> j \<longrightarrow> out' j = out j) \<and>
             filter_ok (out_filter dec'))"
  using process_advances [OF assms, of out ops audio] finalize_advances [OF assms, of out ops]
  by (simp add: advances_def split_beta)


lemmas decoder_eval =
  cw_decoder_finalize_def cw_decoder_create_def cw_config_init_def timing_finalize_def timing_init_def
  envelope_init_def output_filter_init_def pattern_flush_def pattern_feed_def emit_element_def
  output_filter_feed_def output_filter_flush_def feed_loop.simps feed_char_def emit_word_def
  all_noise_from.simps is_noise_char_def memcpy_def size_t_of_def c_string_def MAX_PATTERN_def
  OUTPUT_FILTER_MAX_WORD_def ELEM_NONE_def ELEM_DIT_def ELEM_DAH_def ELEM_CHAR_def ELEM_WORD_def
  Let_def

lemma pat_E: "morse_lookup_merged ''.'' zero_buf 4 = (1, zero_buf(0 := CHR ''E''))"
  by (simp add: morse_lookup_merged_def morse_lookup_def MORSE_TABLE_def mk_entry_def)

lemma upt16: "[0..<16] = [0,1,2,3,4,5,6,7,8,9,10,11,12,13,14,15]"
  by (simp add: upt_rec)

lemma example_finalize: "fst (cw_decoder_finalize real_ops example_decoder zero_buf 2) = 2 \<and>
  map (fst (snd (cw_decoder_finalize real_ops example_decoder zero_buf 2))) [0, 1, 2] = [CHR ''H'', CHR ''I'', CHR 0x00]"
  by (simp add: example_decoder_def decoder_eval upt16 zero_buf_def pat_E [unfolded zero_buf_def])

theorem decoder_output_within_bounds_witness:
  "filter_ok (out_filter example_decoder) \<and> (0::int) \<le> 2 \<and>
   fst (cw_decoder_finalize real_ops example_decoder zero_buf 2) = 2 \<and>
   map (fst (snd (cw_decoder_finalize real_ops example_decoder zero_buf 2))) [0, 1, 2]
     = [CHR ''H'', CHR ''I'', CHR 0x00] \<and>
   fst (snd (cw_decoder_finalize real_ops example_decoder zero_buf 2)) 2 = zero_buf 2 \<and>
   fst (cw_decoder_process real_ops example_decoder [] zero_buf 2) = 0"
proof -
  have ok: "filter_ok (out_filter example_decoder)"
    by (simp add: example_decoder_def filter_ok_def)
  have le: "(0::int) \<le> 2" by simp
  have "fst (snd (cw_decoder_finalize real_ops example_decoder zero_buf 2)) 2 = zero_buf 2"
    using decoder_output_within_bounds [OF ok le, of real_ops "[]" zero_buf] example_finalize
    by (simp add: split_beta)
  moreover have "fst (cw_decoder_process real_ops example_decoder [] zero_buf 2) = 0"
    by (simp add: cw_decoder_process_def)
  ultimately show ?thesis
    using ok example_finalize by simp
qed

section \<open>Kalman update: accepted measurements\<close>


lemma kalman_update_accepts:
  assumes "in_states idx" and "\<not> f_le ops D (f_lit ops 0 0)"
    and "\<not> f_lt ops (innovation_gate k) (f_fabs ops (f_sub ops (f_log ops D) (kx k idx)))"
  shows "kalman_update ops k idx D = (1, apply_bounds ops (accepted_state ops k idx D))"
  using assms by (simp add: kalman_update_def accepted_state_def Let_def in_states_def)



lemma apply_bounds_kP: "kP (apply_bounds ops k) = kP k"
  by (simp add: apply_bounds_def Let_def)











lemma ordered_nan_ops: "ordered nan_ops"
  by (auto simp: ordered_def is_num_def nan_ops_def split: option.splits)

lemma accepted_P_real:
  assumes "in_states i" and "in_states j"
  shows "kP (accepted_state real_ops k idx D) i j =
           kP k i j - kP k i idx / gain_S k idx * kP k idx j - kP k i idx * (kP k j idx / gain_S k idx)
             + kP k i idx / gain_S k idx * kP k idx idx * (kP k j idx / gain_S k idx)
             + kP k i idx / gain_S k idx * kR k * (kP k j idx / gain_S k idx)
             + (if i = j then kQ k i else 0)"
  using assms by (simp add: accepted_state_def Let_def real_ops_def gain_S_def)


















lemma kalman_init_fields:
  "kx (kalman_init real_ops 48000 20 5 60) 0 = ln 2880"
  "innovation_gate (kalman_init real_ops 48000 20 5 60) = ln 2"
  "min_wpm (kalman_init real_ops 48000 20 5 60) = 5"
  "max_wpm (kalman_init real_ops 48000 20 5 60) = 60"
  "k_sample_rate (kalman_init real_ops 48000 20 5 60) = 48000"
  "kR (kalman_init real_ops 48000 20 5 60) = 1/10"
  "kQ (kalman_init real_ops 48000 20 5 60) i = (if in_states i then 1/100 else 0)"
  "kP (kalman_init real_ops 48000 20 5 60) i j
     = (if in_states i \<and> in_states j then (if i = j then 1/10 else 0) else 0)"
  by (simp_all add: kalman_init_def kalman_reset_def Let_def real_ops_def K_DIT_def K_DAH_def
      K_ELEM_SPACE_def K_CHAR_SPACE_def K_WORD_SPACE_def kalman_zero_def)













text \<open>
  Why the covariance clause asks for a positive semidefinite \<open>P\<close>: from the symmetric
  \<open>P\<close> of \<open>skewed_kalman\<close> (diagonal 0.1, \<open>P[0][1] = P[1][0] = 0.2\<close>, \<open>R = 0.1\<close>,
  \<open>Q[1] = 0.01\<close>) an accepted dit measurement has \<open>S = 0.2\<close> and gain \<open>K[1] = 1\<close>, and
  leaves \<open>P[1][1] = 0.1 - 0.2 - 0.2 + 0.1 + 0.1 + 0.01 = -0.09\<close>.
\<close>

lemma skewed_accepts:
  "kalman_update real_ops skewed_kalman 0 2880
     = (1, apply_bounds real_ops (accepted_state real_ops skewed_kalman 0 2880))"
  by (rule kalman_update_accepts) (simp_all add: in_states_def KALMAN_STATES_def skewed_kalman_def
      kalman_init_fields, simp_all add: real_ops_def)

lemma skewed_diagonal_negative:
  "P_symmetric (kP skewed_kalman) \<and> P_nonneg_diag (kP skewed_kalman) \<and>
   fst (kalman_update real_ops skewed_kalman 0 2880) = 1 \<and>
   kP (snd (kalman_update real_ops skewed_kalman 0 2880)) 1 1 = - 9/100"
proof -
  have s: "P_symmetric (kP skewed_kalman)"
    by (auto simp: P_symmetric_def skewed_kalman_def)
  have n: "P_nonneg_diag (kP skewed_kalman)"
    by (simp add: P_nonneg_diag_def skewed_kalman_def)
  have g: "gain_S skewed_kalman 0 = 2/10"
    by (simp add: gain_S_def skewed_kalman_def kalman_init_fields)
  have "kP (accepted_state real_ops skewed_kalman 0 2880) 1 1 = - 9/100"
    unfolding accepted_P_real [of 1 1, unfolded in_states_def KALMAN_STATES_def, simplified] g
    by (simp add: skewed_kalman_def kalman_init_fields in_states_def KALMAN_STATES_def)
  then show ?thesis
    using s n by (simp add: skewed_accepts apply_bounds_kP)
qed

section \<open>Chunked decoding: independence of chunk boundaries between equal segments\<close>

lemma emit_word_roomy:
  assumes "filter_ok f" and "int (length (emitted_word f)) \<le> room"
  shows "emit_word f out b room = (int (length (emitted_word f)), write_at out b (emitted_word f), after_emit f)"
proof -
  have ok: "0 \<le> word_len f" "word_len f \<le> 63"
    using assms(1) by (simp_all add: filter_ok_def)
  consider (empty) "word_len f = 0"
    | (quiet) "word_len f \<noteq> 0" "warmed_up f = 0" "word_len f < min_word_length f \<and> all_noise_from f 0"
    | (warm) "word_len f \<noteq> 0" "warmed_up f \<noteq> 0"
    | (first) "word_len f \<noteq> 0" "warmed_up f = 0" "\<not> (word_len f < min_word_length f \<and> all_noise_from f 0)"
    by blast
  then show ?thesis
  proof cases
    case empty
    then show ?thesis by (simp add: emit_word_def emitted_word_def after_emit_def)
  next
    case quiet
    then show ?thesis by (simp add: emit_word_def emitted_word_def after_emit_def)
  next
    case warm
    then have e: "emitted_word f = word_chars f" by (simp add: emitted_word_def)
    then have "word_len f \<le> room" using assms(2) length_word_chars [OF ok(1)] by simp
    then show ?thesis
      using warm e memcpy_write_at [OF ok] length_word_chars [OF ok(1)]
      by (simp add: emit_word_def after_emit_def Let_def)
  next
    case first
    then have e: "emitted_word f = word_chars f" by (auto simp: emitted_word_def)
    then have "word_len f \<le> room" using assms(2) length_word_chars [OF ok(1)] by simp
    then show ?thesis
      using first e memcpy_write_at [OF ok] length_word_chars [OF ok(1)]
      by (auto simp: emit_word_def after_emit_def Let_def)
  qed
qed

lemma emit_word_tight:
  assumes "filter_ok f" and "0 \<le> room" and "fst (emit_word f out b room) < room"
  shows "int (length (emitted_word f)) < room"
  using assms length_word_chars [of f]
  by (auto simp: emit_word_def emitted_word_def filter_ok_def Let_def split: if_splits)

lemma emitted_word_length: "filter_ok f \<Longrightarrow> int (length (emitted_word f)) \<le> word_len f"
  by (auto simp: emitted_word_def filter_ok_def word_chars_def)

lemma after_emit_len: "word_len (after_emit f) = word_len f"
  by (simp add: after_emit_def)

lemma after_char_ok: "filter_ok f \<Longrightarrow> filter_ok (after_char f c)"
  by (auto simp: after_char_def filter_ok_def OUTPUT_FILTER_MAX_WORD_def)

lemma feed_char_roomy:
  assumes "filter_ok f" and "0 \<le> w" and "w + int (length (fed_chars f c)) < L"
  shows "feed_char f c out base L w
           = (w + int (length (fed_chars f c)), write_at out (base + w) (fed_chars f c), after_char f c)"
proof (cases "c = CHR '' ''")
  case True
  have room: "int (length (emitted_word f)) \<le> L - w"
    using assms(3) True by (auto simp: fed_chars_def split: if_splits)
  note e = emit_word_roomy [OF assms(1) room, of out "base + w"]
  show ?thesis
  proof (cases "emitted_word f = []")
    case True
    with e \<open>c = CHR '' ''\<close> show ?thesis
      by (simp add: feed_char_def fed_chars_def after_char_def)
  next
    case False
    then have pos: "0 < int (length (emitted_word f))" by simp
    have lt: "w + int (length (emitted_word f)) < L"
      using assms(3) \<open>c = CHR '' ''\<close> False by (simp add: fed_chars_def)
    have "(write_at out (base + w) (emitted_word f))(base + (w + int (length (emitted_word f))) := CHR '' '')
            = write_at out (base + w) (emitted_word f @ [CHR '' ''])"
      using write_at_snoc [of out "base + w" "emitted_word f" "CHR '' ''"] by (simp add: add.assoc)
    with e pos lt \<open>c = CHR '' ''\<close> False show ?thesis
      by (simp add: feed_char_def fed_chars_def after_char_def)
  qed
next
  case False
  then show ?thesis
    by (simp add: feed_char_def fed_chars_def after_char_def)
qed

lemma feed_char_tight:
  assumes "filter_ok f" and "0 \<le> w" and "w < L" and "fst (feed_char f c out base L w) < L"
  shows "w + int (length (fed_chars f c)) < L"
proof (cases "c = CHR '' ''")
  case True
  obtain n o1 f1 where e: "emit_word f out (base + w) (L - w) = (n, o1, f1)"
    by (cases "emit_word f out (base + w) (L - w)")
  have "n < L - w"
    using assms(3,4) True e by (auto simp: feed_char_def split: if_splits)
  then have t: "int (length (emitted_word f)) < L - w"
    using emit_word_tight [OF assms(1), of "L - w" out "base + w"] assms(3) e by simp
  then have r: "emit_word f out (base + w) (L - w)
                  = (int (length (emitted_word f)), write_at out (base + w) (emitted_word f), after_emit f)"
    using emit_word_roomy [OF assms(1), of "L - w" out "base + w"] by simp
  show ?thesis
    using assms(3,4) True r t by (auto simp: feed_char_def fed_chars_def split: if_splits)
next
  case False
  then show ?thesis using assms(3) by (simp add: fed_chars_def)
qed

lemma feed_loop_tight:
  "filter_ok f \<Longrightarrow> 0 \<le> w \<Longrightarrow> fst (feed_loop f tx tlen out base L i w) < L \<Longrightarrow>
   w + int (length (fst (fed_text f tx tlen i))) < L"
proof (induction f tx tlen out base L i w rule: feed_loop.induct)
  case (1 f tx tlen out base L i w)
  show ?case
  proof (cases "i < tlen \<and> w < L")
    case True
    obtain w1 o1 f1 where step: "feed_char f (tx i) out base L w = (w1, o1, f1)"
      by (cases "feed_char f (tx i) out base L w")
    have unf: "feed_loop f tx tlen out base L i w = feed_loop f1 tx tlen o1 base L (i + 1) w1"
      using True step by (subst feed_loop.simps) simp
    have adv: "advances base L w out w1 o1" and ok1: "filter_ok f1"
      using feed_char_advances [OF "1.prems"(1,2), of L base out "tx i"] True step by simp_all
    then have w1: "0 \<le> w1" "w1 \<le> L" using "1.prems"(2) by (auto simp: advances_def)
    have "w1 \<le> fst (feed_loop f1 tx tlen o1 base L (i + 1) w1)"
      using feed_loop_advances [OF ok1 w1, of base o1 tx tlen "i + 1"] by (simp add: advances_def)
    then have "w1 < L" using "1.prems"(3) unfolding unf by simp
    then have t: "w + int (length (fed_chars f (tx i))) < L"
      using feed_char_tight [OF "1.prems"(1,2), of L "tx i" out base] True step by simp
    have r: "w1 = w + int (length (fed_chars f (tx i)))" "f1 = after_char f (tx i)"
      using feed_char_roomy [OF "1.prems"(1,2) t, of out base] step by simp_all
    have ih: "w1 + int (length (fst (fed_text f1 tx tlen (i + 1)))) < L"
      using "1.IH" [OF True refl step [symmetric] refl ok1 w1(1)] "1.prems"(3) unfolding unf by simp
    have "fst (fed_text f tx tlen i) = fed_chars f (tx i) @ fst (fed_text f1 tx tlen (i + 1))"
      using True r by (subst fed_text.simps) (simp add: split_beta)
    then show ?thesis using ih r by simp
  next
    case False
    then have "feed_loop f tx tlen out base L i w = (w, out, f)"
      by (subst feed_loop.simps) auto
    then have "w < L" using "1.prems"(3) by simp
    with False have "\<not> i < tlen" by simp
    then have "fst (fed_text f tx tlen i) = []"
      by (subst fed_text.simps) simp
    then show ?thesis using \<open>w < L\<close> by simp
  qed
qed

lemma feed_loop_roomy:
  "filter_ok f \<Longrightarrow> 0 \<le> w \<Longrightarrow> w + int (length (fst (fed_text f tx tlen i))) < L \<Longrightarrow>
   feed_loop f tx tlen out base L i w
     = (w + int (length (fst (fed_text f tx tlen i))),
        write_at out (base + w) (fst (fed_text f tx tlen i)),
        snd (fed_text f tx tlen i))"
proof (induction f tx tlen i arbitrary: out w rule: fed_text.induct)
  case (1 f tx tlen i)
  show ?case
  proof (cases "i < tlen")
    case True
    let ?cs = "fed_chars f (tx i)"
    let ?f1 = "after_char f (tx i)"
    let ?rest = "fed_text ?f1 tx tlen (i + 1)"
    have ft: "fed_text f tx tlen i = (?cs @ fst ?rest, snd ?rest)"
      using True by (subst fed_text.simps) (simp add: split_beta)
    have room1: "w + int (length ?cs) < L" and wL: "w < L"
      using "1.prems"(3) ft by simp_all
    have step: "feed_char f (tx i) out base L w = (w + int (length ?cs), write_at out (base + w) ?cs, ?f1)"
      using feed_char_roomy [OF "1.prems"(1,2) room1] .
    have unf: "feed_loop f tx tlen out base L i w
                = feed_loop ?f1 tx tlen (write_at out (base + w) ?cs) base L (i + 1) (w + int (length ?cs))"
      using True wL step by (subst feed_loop.simps) simp
    have room2: "(w + int (length ?cs)) + int (length (fst ?rest)) < L"
      using "1.prems"(3) ft by simp
    have ih: "feed_loop ?f1 tx tlen (write_at out (base + w) ?cs) base L (i + 1) (w + int (length ?cs))
                = ((w + int (length ?cs)) + int (length (fst ?rest)),
                   write_at (write_at out (base + w) ?cs) (base + (w + int (length ?cs))) (fst ?rest),
                   snd ?rest)"
      using "1.IH" [OF True after_char_ok [OF "1.prems"(1)] _ room2] "1.prems"(2) by simp
    show ?thesis
      unfolding unf ih ft
      using write_at_append [of out "base + w" ?cs "fst ?rest"] by (simp add: add.assoc)
  next
    case False
    then have ft: "fed_text f tx tlen i = ([], f)"
      by (subst fed_text.simps) simp
    have "feed_loop f tx tlen out base L i w = (w, out, f)"
      using False by (subst feed_loop.simps) simp
    then show ?thesis using ft by simp
  qed
qed

lemma fed_text_ok: "filter_ok f \<Longrightarrow> filter_ok (snd (fed_text f tx tlen i))"
proof (induction f tx tlen i rule: fed_text.induct)
  case (1 f tx tlen i)
  show ?case
  proof (cases "i < tlen")
    case True
    then show ?thesis
      using "1.IH" [OF True after_char_ok [OF "1.prems"]]
      by (subst fed_text.simps) (simp add: split_beta)
  next
    case False
    then show ?thesis using "1.prems" by (subst fed_text.simps) simp
  qed
qed

lemma element_text_ok:
  "filter_ok (out_filter dec) \<Longrightarrow> filter_ok (out_filter (snd (element_text dec elem)))"
  using pattern_feed_out_filter [of dec elem zero_buf 4]
  by (auto simp: element_text_def split_beta Let_def fed_text_ok)

lemma emit_element_roomy:
  assumes "filter_ok (out_filter dec)" and "0 \<le> tw"
    and "tw + int (length (fst (element_text dec elem))) < L"
  shows "emit_element dec elem out L tw
           = (tw + int (length (fst (element_text dec elem))),
              write_at out tw (fst (element_text dec elem)),
              snd (element_text dec elem))"
proof -
  obtain pat_n pat_out dec1 where pf: "pattern_feed dec elem zero_buf 4 = (pat_n, pat_out, dec1)"
    by (cases "pattern_feed dec elem zero_buf 4")
  have ok1: "filter_ok (out_filter dec1)"
    using pattern_feed_out_filter [of dec elem zero_buf 4] pf assms(1) by simp
  show ?thesis
  proof (cases "pat_n > 0")
    case True
    let ?ft = "fed_text (out_filter dec1) pat_out pat_n 0"
    have et: "element_text dec elem = (fst ?ft, dec1\<lparr>out_filter := snd ?ft\<rparr>)"
      using pf True by (simp add: element_text_def split_beta)
    have room: "0 + int (length (fst ?ft)) < L - tw"
      using assms(3) et by simp
    have "feed_loop (out_filter dec1) pat_out pat_n out tw (L - tw) 0 0
            = (0 + int (length (fst ?ft)), write_at out (tw + 0) (fst ?ft), snd ?ft)"
      using feed_loop_roomy [OF ok1 _ room, of out tw] by simp
    then show ?thesis
      using pf True et by (simp add: emit_element_def output_filter_feed_def)
  next
    case False
    then have et: "element_text dec elem = ([], dec1)"
      using pf by (simp add: element_text_def)
    show ?thesis
      using pf False et by (simp add: emit_element_def)
  qed
qed

lemma emit_element_tight:
  assumes "filter_ok (out_filter dec)" and "0 \<le> tw" and "tw < L"
    and "fst (emit_element dec elem out L tw) < L"
  shows "tw + int (length (fst (element_text dec elem))) < L"
proof -
  obtain pat_n pat_out dec1 where pf: "pattern_feed dec elem zero_buf 4 = (pat_n, pat_out, dec1)"
    by (cases "pattern_feed dec elem zero_buf 4")
  have ok1: "filter_ok (out_filter dec1)"
    using pattern_feed_out_filter [of dec elem zero_buf 4] pf assms(1) by simp
  show ?thesis
  proof (cases "pat_n > 0")
    case True
    let ?ft = "fed_text (out_filter dec1) pat_out pat_n 0"
    have et: "element_text dec elem = (fst ?ft, dec1\<lparr>out_filter := snd ?ft\<rparr>)"
      using pf True by (simp add: element_text_def split_beta)
    have "fst (feed_loop (out_filter dec1) pat_out pat_n out tw (L - tw) 0 0) < L - tw"
      using assms(4) pf True by (simp add: emit_element_def output_filter_feed_def split_beta)
    then have "0 + int (length (fst ?ft)) < L - tw"
      using feed_loop_tight [OF ok1, of 0 pat_out pat_n out tw "L - tw" 0] by simp
    then show ?thesis using et by simp
  next
    case False
    then have "element_text dec elem = ([], dec1)"
      using pf by (simp add: element_text_def)
    then show ?thesis using assms(3) by simp
  qed
qed

lemma sample_text_ok:
  "filter_ok (out_filter dec) \<Longrightarrow> filter_ok (out_filter (snd (sample_text ops dec on)))"
  using element_text_ok [of "dec\<lparr>timing := snd (timing_process_sample ops (timing dec) on)\<rparr>"]
  by (simp add: sample_text_def split_beta Let_def)

lemma sample_loop_unfold:
  "sample_loop ops dec on_off chunk out L i tw =
     (if i < chunk \<and> tw < L
      then (let (tw1, out1, dec1) = sample_step ops dec (on_off i) out L tw
            in sample_loop ops dec1 on_off chunk out1 L (i + 1) tw1)
      else (tw, out, dec))"
  by (subst sample_loop.simps) (simp add: sample_step_def Let_def split_beta)

lemma sample_step_advances:
  assumes "filter_ok (out_filter dec)" and "0 \<le> tw" and "tw \<le> L"
  shows "advances 0 L tw out (fst (sample_step ops dec on out L tw))
           (fst (snd (sample_step ops dec on out L tw))) \<and>
         filter_ok (out_filter (snd (snd (sample_step ops dec on out L tw))))"
  using emit_element_advances [of "dec\<lparr>timing := snd (timing_process_sample ops (timing dec) on)\<rparr>" tw L out]
    assms
  by (simp add: sample_step_def split_beta Let_def advances_refl)

lemma sample_step_roomy:
  assumes "filter_ok (out_filter dec)" and "0 \<le> tw"
    and "tw + int (length (fst (sample_text ops dec on))) < L"
  shows "sample_step ops dec on out L tw
           = (tw + int (length (fst (sample_text ops dec on))),
              write_at out tw (fst (sample_text ops dec on)),
              snd (sample_text ops dec on))"
proof -
  obtain elem tm where tp: "timing_process_sample ops (timing dec) on = (elem, tm)"
    by (cases "timing_process_sample ops (timing dec) on")
  let ?dec1 = "dec\<lparr>timing := tm\<rparr>"
  have ok1: "filter_ok (out_filter ?dec1)" using assms(1) by simp
  show ?thesis
  proof (cases "elem \<noteq> ELEM_NONE")
    case True
    then have st: "sample_text ops dec on = element_text ?dec1 elem"
      using tp by (simp add: sample_text_def)
    show ?thesis
      using emit_element_roomy [OF ok1 assms(2), of elem L out] assms(3) True tp
      unfolding st by (simp add: sample_step_def)
  next
    case False
    then show ?thesis
      using tp by (simp add: sample_step_def sample_text_def)
  qed
qed

lemma sample_step_tight:
  assumes "filter_ok (out_filter dec)" and "0 \<le> tw" and "tw < L"
    and "fst (sample_step ops dec on out L tw) < L"
  shows "tw + int (length (fst (sample_text ops dec on))) < L"
proof -
  obtain elem tm where tp: "timing_process_sample ops (timing dec) on = (elem, tm)"
    by (cases "timing_process_sample ops (timing dec) on")
  let ?dec1 = "dec\<lparr>timing := tm\<rparr>"
  have ok1: "filter_ok (out_filter ?dec1)" using assms(1) by simp
  show ?thesis
  proof (cases "elem \<noteq> ELEM_NONE")
    case True
    then have st: "sample_text ops dec on = element_text ?dec1 elem"
      using tp by (simp add: sample_text_def)
    have "fst (emit_element ?dec1 elem out L tw) < L"
      using assms(4) True tp by (simp add: sample_step_def)
    then show ?thesis
      using emit_element_tight [OF ok1 assms(2,3), of elem out] unfolding st by simp
  next
    case False
    then show ?thesis
      using tp assms(3) by (simp add: sample_text_def)
  qed
qed

lemma heard_samples_unfold:
  "heard_samples ops dec on_off chunk i =
     (if i < chunk
      then (fst (sample_text ops dec (on_off i))
              @ fst (heard_samples ops (snd (sample_text ops dec (on_off i))) on_off chunk (i + 1)),
            snd (heard_samples ops (snd (sample_text ops dec (on_off i))) on_off chunk (i + 1)))
      else ([], dec))"
  by (subst heard_samples.simps) (simp add: split_beta)

lemma sample_loop_tight:
  "filter_ok (out_filter dec) \<Longrightarrow> 0 \<le> tw \<Longrightarrow>
   fst (sample_loop ops dec on_off chunk out L i tw) < L \<Longrightarrow>
   tw + int (length (fst (heard_samples ops dec on_off chunk i))) < L"
proof (induction k \<equiv> "nat (chunk - i)" arbitrary: i dec out tw)
  case 0
  then have "\<not> i < chunk" by simp
  then have "sample_loop ops dec on_off chunk out L i tw = (tw, out, dec)"
    and "heard_samples ops dec on_off chunk i = ([], dec)"
    by (simp_all add: sample_loop_unfold heard_samples_unfold)
  then show ?case using "0.prems" by simp
next
  case (Suc k)
  then have i: "i < chunk" by simp
  have twL: "tw < L"
  proof (rule ccontr)
    assume "\<not> tw < L"
    then have "sample_loop ops dec on_off chunk out L i tw = (tw, out, dec)"
      by (simp add: sample_loop_unfold)
    with Suc.prems(3) \<open>\<not> tw < L\<close> show False by simp
  qed
  obtain tw1 out1 dec1 where step: "sample_step ops dec (on_off i) out L tw = (tw1, out1, dec1)"
    by (cases "sample_step ops dec (on_off i) out L tw")
  have unf: "sample_loop ops dec on_off chunk out L i tw = sample_loop ops dec1 on_off chunk out1 L (i + 1) tw1"
    using i twL step by (simp add: sample_loop_unfold)
  have adv: "advances 0 L tw out tw1 out1" and ok1: "filter_ok (out_filter dec1)"
    using sample_step_advances [OF Suc.prems(1,2), of L out ops "on_off i"] twL step by simp_all
  then have w1: "0 \<le> tw1" "tw1 \<le> L" using Suc.prems(2) by (auto simp: advances_def)
  have "tw1 \<le> fst (sample_loop ops dec1 on_off chunk out1 L (i + 1) tw1)"
    using sample_loop_advances [OF ok1 w1, of out1 ops on_off chunk "i + 1"] by (simp add: advances_def)
  then have "tw1 < L" using Suc.prems(3) unfolding unf by simp
  then have t: "tw + int (length (fst (sample_text ops dec (on_off i)))) < L"
    using sample_step_tight [OF Suc.prems(1,2) twL, of ops "on_off i" out] step by simp
  have r: "tw1 = tw + int (length (fst (sample_text ops dec (on_off i))))"
          "dec1 = snd (sample_text ops dec (on_off i))"
    using sample_step_roomy [OF Suc.prems(1,2) t, of out] step by simp_all
  have k: "k = nat (chunk - (i + 1))" using Suc.hyps(2) by simp
  have ih: "tw1 + int (length (fst (heard_samples ops dec1 on_off chunk (i + 1)))) < L"
    using Suc.hyps(1) [OF k ok1 w1(1)] Suc.prems(3) unfolding unf by simp
  show ?case
    using i ih r by (subst heard_samples_unfold) simp
qed

lemma sample_loop_roomy:
  "filter_ok (out_filter dec) \<Longrightarrow> 0 \<le> tw \<Longrightarrow>
   tw + int (length (fst (heard_samples ops dec on_off chunk i))) < L \<Longrightarrow>
   sample_loop ops dec on_off chunk out L i tw
     = (tw + int (length (fst (heard_samples ops dec on_off chunk i))),
        write_at out tw (fst (heard_samples ops dec on_off chunk i)),
        snd (heard_samples ops dec on_off chunk i))"
proof (induction k \<equiv> "nat (chunk - i)" arbitrary: i dec out tw)
  case 0
  then have "\<not> i < chunk" by simp
  then show ?case
    by (simp add: sample_loop_unfold heard_samples_unfold)
next
  case (Suc k)
  then have i: "i < chunk" by simp
  let ?st = "sample_text ops dec (on_off i)"
  let ?rest = "heard_samples ops (snd ?st) on_off chunk (i + 1)"
  have hs: "heard_samples ops dec on_off chunk i = (fst ?st @ fst ?rest, snd ?rest)"
    using i by (subst heard_samples_unfold) simp
  have room1: "tw + int (length (fst ?st)) < L" and twL: "tw < L"
    using Suc.prems(3) hs by simp_all
  have step: "sample_step ops dec (on_off i) out L tw
                = (tw + int (length (fst ?st)), write_at out tw (fst ?st), snd ?st)"
    using sample_step_roomy [OF Suc.prems(1,2) room1] .
  have unf: "sample_loop ops dec on_off chunk out L i tw
               = sample_loop ops (snd ?st) on_off chunk (write_at out tw (fst ?st)) L (i + 1)
                   (tw + int (length (fst ?st)))"
    using i twL step by (simp add: sample_loop_unfold)
  have room2: "(tw + int (length (fst ?st))) + int (length (fst ?rest)) < L"
    using Suc.prems(3) hs by simp
  have k: "k = nat (chunk - (i + 1))" using Suc.hyps(2) by simp
  have ih: "sample_loop ops (snd ?st) on_off chunk (write_at out tw (fst ?st)) L (i + 1)
              (tw + int (length (fst ?st)))
            = ((tw + int (length (fst ?st))) + int (length (fst ?rest)),
               write_at (write_at out tw (fst ?st)) (tw + int (length (fst ?st))) (fst ?rest),
               snd ?rest)"
    using Suc.hyps(1) [OF k sample_text_ok [OF Suc.prems(1)] _ room2] Suc.prems(2) by simp
  show ?case
    unfolding unf ih hs using write_at_append [of out tw "fst ?st" "fst ?rest"] by (simp add: add.assoc)
qed

lemma heard_samples_ok:
  "filter_ok (out_filter dec) \<Longrightarrow> filter_ok (out_filter (snd (heard_samples ops dec on_off chunk i)))"
proof (induction k \<equiv> "nat (chunk - i)" arbitrary: i dec)
  case 0
  then show ?case by (simp add: heard_samples_unfold)
next
  case (Suc k)
  then have i: "i < chunk" by simp
  have k: "k = nat (chunk - (i + 1))" using Suc.hyps(2) by simp
  show ?case
    using i Suc.hyps(1) [OF k sample_text_ok [OF Suc.prems]]
    by (subst heard_samples_unfold) simp
qed

lemma segment_loop_unfold:
  "segment_loop ops dec audio n out L processed tw =
     (if processed < n \<and> tw < L
      then (let (tw1, out1, dec1) = segment_step ops dec audio n processed out L tw
            in segment_loop ops dec1 audio n out1 L (processed + segment_chunk n processed) tw1)
      else (tw, out, dec))"
  by (subst segment_loop.simps)
     (simp add: segment_step_def segment_front_def segment_chunk_def Let_def split_beta)

lemma heard_segments_unfold:
  "heard_segments ops dec audio n processed =
     (if processed < n
      then (fst (segment_text ops dec audio n processed)
              @ fst (heard_segments ops (snd (segment_text ops dec audio n processed)) audio n
                       (processed + segment_chunk n processed)),
            snd (heard_segments ops (snd (segment_text ops dec audio n processed)) audio n
                   (processed + segment_chunk n processed)))
      else ([], dec))"
  by (subst heard_segments.simps) (simp add: segment_text_def Let_def split_beta)

lemma segment_front_ok:
  "out_filter (fst (segment_front ops dec audio processed chunk)) = out_filter dec"
  by (simp add: segment_front_def Let_def split_beta)

lemma segment_text_ok:
  "filter_ok (out_filter dec) \<Longrightarrow> filter_ok (out_filter (snd (segment_text ops dec audio n processed)))"
  using heard_samples_ok [of "fst (segment_front ops dec audio processed (segment_chunk n processed))"]
  by (simp add: segment_text_def Let_def split_beta segment_front_ok)

lemma segment_step_advances:
  assumes "filter_ok (out_filter dec)" and "0 \<le> tw" and "tw \<le> L"
  shows "advances 0 L tw out (fst (segment_step ops dec audio n processed out L tw))
           (fst (snd (segment_step ops dec audio n processed out L tw))) \<and>
         filter_ok (out_filter (snd (snd (segment_step ops dec audio n processed out L tw))))"
  using sample_loop_advances [of "fst (segment_front ops dec audio processed (segment_chunk n processed))" tw L out]
    assms
  by (simp add: segment_step_def Let_def split_beta segment_front_ok)

lemma segment_step_roomy:
  assumes "filter_ok (out_filter dec)" and "0 \<le> tw"
    and "tw + int (length (fst (segment_text ops dec audio n processed))) < L"
  shows "segment_step ops dec audio n processed out L tw
           = (tw + int (length (fst (segment_text ops dec audio n processed))),
              write_at out tw (fst (segment_text ops dec audio n processed)),
              snd (segment_text ops dec audio n processed))"
  using sample_loop_roomy [of "fst (segment_front ops dec audio processed (segment_chunk n processed))" tw
      ops "snd (segment_front ops dec audio processed (segment_chunk n processed))"
      "segment_chunk n processed" 0 L out] assms
  by (simp add: segment_step_def segment_text_def Let_def split_beta segment_front_ok)

lemma segment_step_tight:
  assumes "filter_ok (out_filter dec)" and "0 \<le> tw"
    and "fst (segment_step ops dec audio n processed out L tw) < L"
  shows "tw + int (length (fst (segment_text ops dec audio n processed))) < L"
  using sample_loop_tight [of "fst (segment_front ops dec audio processed (segment_chunk n processed))" tw
      ops "snd (segment_front ops dec audio processed (segment_chunk n processed))"
      "segment_chunk n processed" out L 0] assms
  by (simp add: segment_step_def segment_text_def Let_def split_beta segment_front_ok)

lemma segment_chunk_pos: "processed < n \<Longrightarrow> 0 < segment_chunk n processed"
  by (simp add: segment_chunk_def)

lemma segment_loop_tight:
  "filter_ok (out_filter dec) \<Longrightarrow> 0 \<le> tw \<Longrightarrow>
   fst (segment_loop ops dec audio n out L processed tw) < L \<Longrightarrow>
   tw + int (length (fst (heard_segments ops dec audio n processed))) < L"
proof (induction k \<equiv> "nat (n - processed)" arbitrary: processed dec out tw rule: less_induct)
  case less
  show ?case
  proof (cases "processed < n")
    case False
    then have "segment_loop ops dec audio n out L processed tw = (tw, out, dec)"
      and "heard_segments ops dec audio n processed = ([], dec)"
      by (simp_all add: segment_loop_unfold heard_segments_unfold)
    then show ?thesis using less.prems by simp
  next
    case True
    have twL: "tw < L"
    proof (rule ccontr)
      assume "\<not> tw < L"
      then have "segment_loop ops dec audio n out L processed tw = (tw, out, dec)"
        by (simp add: segment_loop_unfold)
      with less.prems(3) \<open>\<not> tw < L\<close> show False by simp
    qed
    let ?c = "segment_chunk n processed"
    obtain tw1 out1 dec1 where step: "segment_step ops dec audio n processed out L tw = (tw1, out1, dec1)"
      by (cases "segment_step ops dec audio n processed out L tw")
    have unf: "segment_loop ops dec audio n out L processed tw
                 = segment_loop ops dec1 audio n out1 L (processed + ?c) tw1"
      using True twL step by (simp add: segment_loop_unfold)
    have adv: "advances 0 L tw out tw1 out1" and ok1: "filter_ok (out_filter dec1)"
      using segment_step_advances [OF less.prems(1,2), of L out ops audio n processed] twL step by simp_all
    then have w1: "0 \<le> tw1" "tw1 \<le> L" using less.prems(2) by (auto simp: advances_def)
    have "tw1 \<le> fst (segment_loop ops dec1 audio n out1 L (processed + ?c) tw1)"
      using segment_loop_advances [OF ok1 w1, of out1 ops audio n "processed + ?c"] by (simp add: advances_def)
    then have "tw1 < L" using less.prems(3) unfolding unf by simp
    then have t: "tw + int (length (fst (segment_text ops dec audio n processed))) < L"
      using segment_step_tight [OF less.prems(1,2), of ops audio n processed out L] step by simp
    have r: "tw1 = tw + int (length (fst (segment_text ops dec audio n processed)))"
            "dec1 = snd (segment_text ops dec audio n processed)"
      using segment_step_roomy [OF less.prems(1,2) t, of out] step by simp_all
    have dec: "nat (n - (processed + ?c)) < nat (n - processed)"
      using True segment_chunk_pos [OF True] by simp
    have ih: "tw1 + int (length (fst (heard_segments ops dec1 audio n (processed + ?c)))) < L"
      using less.hyps [OF dec ok1 w1(1)] less.prems(3) unfolding unf by simp
    show ?thesis
      using True ih r by (subst heard_segments_unfold) simp
  qed
qed

lemma segment_loop_roomy:
  "filter_ok (out_filter dec) \<Longrightarrow> 0 \<le> tw \<Longrightarrow>
   tw + int (length (fst (heard_segments ops dec audio n processed))) < L \<Longrightarrow>
   segment_loop ops dec audio n out L processed tw
     = (tw + int (length (fst (heard_segments ops dec audio n processed))),
        write_at out tw (fst (heard_segments ops dec audio n processed)),
        snd (heard_segments ops dec audio n processed))"
proof (induction k \<equiv> "nat (n - processed)" arbitrary: processed dec out tw rule: less_induct)
  case less
  show ?case
  proof (cases "processed < n")
    case False
    then show ?thesis
      by (simp add: segment_loop_unfold heard_segments_unfold)
  next
    case True
    let ?c = "segment_chunk n processed"
    let ?st = "segment_text ops dec audio n processed"
    let ?rest = "heard_segments ops (snd ?st) audio n (processed + ?c)"
    have hs: "heard_segments ops dec audio n processed = (fst ?st @ fst ?rest, snd ?rest)"
      using True by (subst heard_segments_unfold) simp
    have room1: "tw + int (length (fst ?st)) < L" and twL: "tw < L"
      using less.prems(3) hs by simp_all
    have step: "segment_step ops dec audio n processed out L tw
                  = (tw + int (length (fst ?st)), write_at out tw (fst ?st), snd ?st)"
      using segment_step_roomy [OF less.prems(1,2) room1] .
    have unf: "segment_loop ops dec audio n out L processed tw
                 = segment_loop ops (snd ?st) audio n (write_at out tw (fst ?st)) L (processed + ?c)
                     (tw + int (length (fst ?st)))"
      using True twL step by (simp add: segment_loop_unfold)
    have room2: "(tw + int (length (fst ?st))) + int (length (fst ?rest)) < L"
      using less.prems(3) hs by simp
    have dec: "nat (n - (processed + ?c)) < nat (n - processed)"
      using True segment_chunk_pos [OF True] by simp
    have ih: "segment_loop ops (snd ?st) audio n (write_at out tw (fst ?st)) L (processed + ?c)
                (tw + int (length (fst ?st)))
              = ((tw + int (length (fst ?st))) + int (length (fst ?rest)),
                 write_at (write_at out tw (fst ?st)) (tw + int (length (fst ?st))) (fst ?rest),
                 snd ?rest)"
      using less.hyps [OF dec segment_text_ok [OF less.prems(1)] _ room2] less.prems(2) by simp
    show ?thesis
      unfolding unf ih hs using write_at_append [of out tw "fst ?st" "fst ?rest"] by (simp add: add.assoc)
  qed
qed

lemma heard_segments_ok:
  "filter_ok (out_filter dec) \<Longrightarrow> filter_ok (out_filter (snd (heard_segments ops dec audio n processed)))"
proof (induction k \<equiv> "nat (n - processed)" arbitrary: processed dec rule: less_induct)
  case less
  show ?case
  proof (cases "processed < n")
    case False
    then show ?thesis using less.prems by (simp add: heard_segments_unfold)
  next
    case True
    have dec: "nat (n - (processed + segment_chunk n processed)) < nat (n - processed)"
      using True segment_chunk_pos [OF True] by simp
    show ?thesis
      using True less.hyps [OF dec segment_text_ok [OF less.prems]]
      by (subst heard_segments_unfold) simp
  qed
qed

lemma out_bytes_write_at: "out_bytes (int (length cs), write_at out 0 cs, s) = cs"
  by (auto simp: out_bytes_def write_at_def intro!: nth_equalityI)

lemma segment_front_shift:
  assumes "\<forall>i. 0 \<le> i \<and> i < chunk \<longrightarrow> A (p + i) = A2 (p2 + i)"
  shows "segment_front ops dec A p chunk = segment_front ops dec A2 p2 chunk"
proof -
  have "(\<lambda>i. if 0 \<le> i \<and> i < chunk then A (p + i) else f_lit ops 0 0)
          = (\<lambda>i. if 0 \<le> i \<and> i < chunk then A2 (p2 + i) else f_lit ops 0 0)"
    using assms by auto
  then show ?thesis by (simp add: segment_front_def)
qed

lemma segment_chunk_le: "p < n \<Longrightarrow> segment_chunk n p \<le> n - p"
  by (simp add: segment_chunk_def)

lemma heard_segments_shift:
  "n - p = n2 - p2 \<Longrightarrow> (\<forall>i. 0 \<le> i \<and> i < n - p \<longrightarrow> A (p + i) = A2 (p2 + i)) \<Longrightarrow>
   heard_segments ops dec A n p = heard_segments ops dec A2 n2 p2"
proof (induction k \<equiv> "nat (n - p)" arbitrary: p p2 dec rule: less_induct)
  case less
  show ?case
  proof (cases "p < n")
    case False
    then have "\<not> p2 < n2" using less.prems(1) by simp
    with False show ?thesis by (simp add: heard_segments_unfold)
  next
    case True
    then have p2: "p2 < n2" using less.prems(1) by simp
    have c: "segment_chunk n2 p2 = segment_chunk n p"
      using less.prems(1) by (simp add: segment_chunk_def)
    let ?c = "segment_chunk n p"
    have "\<forall>i. 0 \<le> i \<and> i < ?c \<longrightarrow> A (p + i) = A2 (p2 + i)"
      using less.prems(2) segment_chunk_le [OF True] by auto
    then have st: "segment_text ops dec A n p = segment_text ops dec A2 n2 p2"
      using segment_front_shift [of ?c A p A2 p2 ops dec] c by (simp add: segment_text_def)
    have dec: "nat (n - (p + ?c)) < nat (n - p)"
      using True segment_chunk_pos [OF True] by simp
    have rel: "n - (p + ?c) = n2 - (p2 + ?c)" using less.prems(1) by simp
    have "\<forall>i. 0 \<le> i \<and> i < n - (p + ?c) \<longrightarrow> A ((p + ?c) + i) = A2 ((p2 + ?c) + i)"
    proof (intro allI impI)
      fix i assume i: "0 \<le> i \<and> i < n - (p + ?c)"
      have "0 \<le> ?c + i \<and> ?c + i < n - p"
        using i segment_chunk_pos [OF True] by simp
      then have "A (p + (?c + i)) = A2 (p2 + (?c + i))" using less.prems(2) by blast
      then show "A ((p + ?c) + i) = A2 ((p2 + ?c) + i)" by (simp add: add.assoc)
    qed
    then have ih: "heard_segments ops (snd (segment_text ops dec A n p)) A n (p + ?c)
                     = heard_segments ops (snd (segment_text ops dec A n p)) A2 n2 (p2 + ?c)"
      using less.hyps [OF dec rel] by blast
    show ?thesis
      using True p2 st c ih
      by (subst heard_segments_unfold, subst (2) heard_segments_unfold) simp
  qed
qed

lemma heard_segments_split:
  "p \<le> m \<Longrightarrow> m \<le> n \<Longrightarrow> 4096 dvd (m - p) \<Longrightarrow>
   heard_segments ops dec A n p
     = (fst (heard_segments ops dec A m p)
          @ fst (heard_segments ops (snd (heard_segments ops dec A m p)) A n m),
        snd (heard_segments ops (snd (heard_segments ops dec A m p)) A n m))"
proof (induction k \<equiv> "nat (m - p)" arbitrary: p dec rule: less_induct)
  case less
  show ?case
  proof (cases "p < m")
    case False
    then have "p = m" using less.prems(1) by simp
    then show ?thesis by (simp add: heard_segments_unfold [of ops dec A m m])
  next
    case True
    obtain q where q: "m - p = 4096 * q" using less.prems(3) by (auto simp: dvd_def)
    then have "0 < q" using True by (simp add: zero_less_mult_iff)
    then have ge: "4096 \<le> m - p" using q by simp
    have cm: "segment_chunk m p = 4096" using ge by (simp add: segment_chunk_def)
    have cn: "segment_chunk n p = 4096" using ge less.prems(2) by (simp add: segment_chunk_def)
    have st: "segment_text ops dec A n p = segment_text ops dec A m p"
      by (simp add: segment_text_def cm cn)
    let ?d = "snd (segment_text ops dec A m p)"
    have dec: "nat (m - (p + 4096)) < nat (m - p)" using True by simp
    have dv: "4096 dvd (m - (p + 4096))"
      using less.prems(3) by (metis diff_diff_eq dvd_diff dvd_refl)
    have ih: "heard_segments ops ?d A n (p + 4096)
                = (fst (heard_segments ops ?d A m (p + 4096))
                     @ fst (heard_segments ops (snd (heard_segments ops ?d A m (p + 4096))) A n m),
                   snd (heard_segments ops (snd (heard_segments ops ?d A m (p + 4096))) A n m))"
      using less.hyps [OF dec _ less.prems(2) dv] ge by simp
    have pn: "p < n" using True less.prems(2) by simp
    have l: "heard_segments ops dec A n p
               = (fst (segment_text ops dec A m p) @ fst (heard_segments ops ?d A n (p + 4096)),
                  snd (heard_segments ops ?d A n (p + 4096)))"
      using pn st cn by (subst heard_segments_unfold) simp
    have r: "heard_segments ops dec A m p
               = (fst (segment_text ops dec A m p) @ fst (heard_segments ops ?d A m (p + 4096)),
                  snd (heard_segments ops ?d A m (p + 4096)))"
      using True cm by (subst heard_segments_unfold) simp
    show ?thesis
      unfolding l r ih by simp
  qed
qed

lemma heard_Nil: "heard ops dec [] = ([], dec)"
  by (simp add: heard_def heard_segments_unfold)

lemma heard_append:
  assumes "4096 dvd length a"
  shows "heard ops dec (a @ b)
           = (fst (heard ops dec a) @ fst (heard ops (snd (heard ops dec a)) b),
              snd (heard ops (snd (heard ops dec a)) b))"
proof -
  let ?A = "\<lambda>i. (a @ b) ! nat i"
  let ?m = "int (length a)"
  let ?n = "int (length (a @ b))"
  have "int 4096 dvd int (length a)" using assms by (simp only: int_dvd_int_iff)
  then have dv: "4096 dvd (?m - 0)" by simp
  have sp: "heard_segments ops dec ?A ?n 0
              = (fst (heard_segments ops dec ?A ?m 0)
                   @ fst (heard_segments ops (snd (heard_segments ops dec ?A ?m 0)) ?A ?n ?m),
                 snd (heard_segments ops (snd (heard_segments ops dec ?A ?m 0)) ?A ?n ?m))"
    using heard_segments_split [of 0 ?m ?n ops dec ?A] dv by simp
  have s1: "heard_segments ops dec ?A ?m 0 = heard_segments ops dec (\<lambda>i. a ! nat i) ?m 0"
    by (rule heard_segments_shift) (auto simp: nth_append nat_less_iff)
  have s2: "heard_segments ops d ?A ?n ?m = heard_segments ops d (\<lambda>i. b ! nat i) (int (length b)) 0" for d
    by (rule heard_segments_shift) (auto simp: nth_append nat_add_distrib)
  show ?thesis
    unfolding heard_def sp s1 s2 by simp
qed

lemma heard_ok: "filter_ok (out_filter dec) \<Longrightarrow> filter_ok (out_filter (snd (heard ops dec audio)))"
  by (simp add: heard_def heard_segments_ok)

lemma aligned_heard_chunks:
  "aligned cs \<Longrightarrow> heard_chunks ops dec cs = heard_chunks ops dec [concat cs]"
proof (induction cs arbitrary: dec)
  case Nil
  then show ?case by (simp add: heard_Nil)
next
  case (Cons c cs)
  show ?case
  proof (cases "cs = []")
    case True
    then show ?thesis by simp
  next
    case False
    then have c: "4096 dvd length c" and al: "aligned cs"
      using Cons.prems by (simp_all add: aligned_def)
    have "heard_chunks ops dec (c # cs)
            = fst (heard ops dec c) @ heard_chunks ops (snd (heard ops dec c)) [concat cs]"
      using Cons.IH [OF al] by simp
    also have "\<dots> = heard_chunks ops dec [c @ concat cs]"
      using heard_append [OF c, of ops dec "concat cs"] by simp
    finally show ?thesis by simp
  qed
qed

lemma process_exact:
  assumes "filter_ok (out_filter dec)" and "fst (cw_decoder_process ops dec audio out L) < L"
  shows "cw_decoder_process ops dec audio out L
           = (int (length (fst (heard ops dec audio))), write_at out 0 (fst (heard ops dec audio)),
              snd (heard ops dec audio))"
proof (cases "audio = []")
  case True
  then show ?thesis by (simp add: cw_decoder_process_def heard_Nil)
next
  case False
  have L: "0 < L"
  proof (rule ccontr)
    assume "\<not> 0 < L"
    then have "cw_decoder_process ops dec audio out L = (0, out, dec)"
      by (simp add: cw_decoder_process_def)
    with assms(2) \<open>\<not> 0 < L\<close> show False by simp
  qed
  let ?A = "\<lambda>i. audio ! nat i"
  let ?n = "int (length audio)"
  have p: "cw_decoder_process ops dec audio out L = segment_loop ops dec ?A ?n out L 0 0"
    using False L by (simp add: cw_decoder_process_def)
  have "0 + int (length (fst (heard_segments ops dec ?A ?n 0))) < L"
    using segment_loop_tight [OF assms(1), of 0 ops ?A ?n out L 0] assms(2) unfolding p by simp
  then show ?thesis
    unfolding p heard_def
    using segment_loop_roomy [OF assms(1), of 0 ops ?A ?n 0 L out] by simp
qed

lemma emit_word_nonneg:
  "filter_ok f \<Longrightarrow> 0 \<le> room \<Longrightarrow> 0 \<le> fst (emit_word f out b room)"
  by (auto simp: emit_word_def filter_ok_def Let_def)

lemma finalize_exact:
  assumes "filter_ok (out_filter dec)" and "fst (cw_decoder_finalize ops dec out L) < L" and "0 \<le> L"
  shows "cw_decoder_finalize ops dec out L
           = (int (length (fst (finalize_text ops dec))), write_at out 0 (fst (finalize_text ops dec)),
              snd (finalize_text ops dec))"
proof -
  obtain elem tm where tf: "timing_finalize ops (timing dec) = (elem, tm)"
    by (cases "timing_finalize ops (timing dec)")
  let ?dec1 = "dec\<lparr>timing := tm\<rparr>"
  have ok1: "filter_ok (out_filter ?dec1)" using assms(1) by simp
  define r1 where "r1 = (if elem \<noteq> ELEM_NONE then emit_element ?dec1 elem out L 0 else (0, out, ?dec1))"
  define t1 where "t1 = (if elem \<noteq> ELEM_NONE then element_text ?dec1 elem else ([], ?dec1))"
  obtain w1 out1 dec2 where s1: "r1 = (w1, out1, dec2)" by (cases r1)
  have a1: "advances 0 L 0 out w1 out1 \<and> filter_ok (out_filter dec2)"
  proof (cases "elem \<noteq> ELEM_NONE")
    case True
    then show ?thesis
      using emit_element_advances [where dec = ?dec1 and tw = 0 and out_len = L and out = out and elem = elem]
        ok1 assms(3) s1 by (simp add: r1_def)
  next
    case False
    then show ?thesis using s1 ok1 assms(3) by (auto simp: r1_def advances_refl)
  qed
  obtain pat_n pat_out dec3 where pf: "pattern_flush dec2 zero_buf 4 = (pat_n, pat_out, dec3)"
    by (cases "pattern_flush dec2 zero_buf 4")
  have ok3: "filter_ok (out_filter dec3)"
    using pattern_flush_out_filter [of dec2 zero_buf 4] pf a1 by simp
  define r2 where "r2 = (if pat_n > 0
      then (let (filt_n, ob, f1) = output_filter_feed (out_filter dec3) pat_out pat_n out1 w1 (L - w1)
            in (w1 + filt_n, ob, dec3\<lparr>out_filter := f1\<rparr>))
      else (w1, out1, dec3))"
  obtain w2 out2 dec4 where s2: "r2 = (w2, out2, dec4)" by (cases r2)
  have w1: "0 \<le> w1" "w1 \<le> L" using a1 by (auto simp: advances_def)
  have a2: "advances 0 L w1 out1 w2 out2 \<and> filter_ok (out_filter dec4)"
  proof (cases "pat_n > 0")
    case True
    then show ?thesis
      using feed_at_advances [OF ok3 w1, of out1 pat_out pat_n] s2 by (auto simp: r2_def split_beta)
  next
    case False
    then show ?thesis using s2 ok3 w1 by (auto simp: r2_def advances_refl)
  qed
  then have w2: "0 \<le> w2" "w2 \<le> L" "w1 \<le> w2" using w1 by (auto simp: advances_def)
  let ?f4 = "out_filter dec4"
  obtain n out3 f5 where e: "emit_word ?f4 out2 w2 (L - w2) = (n, out3, f5)"
    by (cases "emit_word ?f4 out2 w2 (L - w2)")
  have fin: "cw_decoder_finalize ops dec out L = (w2 + n, out3, dec4\<lparr>out_filter := f5\<lparr>word_len := 0\<rparr>\<rparr>)"
    using tf s1 pf s2 e
    by (cases "elem \<noteq> ELEM_NONE"; cases "pat_n > 0")
       (simp_all add: cw_decoder_finalize_def output_filter_flush_def r1_def r2_def Let_def split_beta)
  have n0: "0 \<le> n"
    using emit_word_nonneg [of ?f4 "L - w2" out2 w2] a2 w2 e by simp
  have total: "w2 + n < L" using assms(2) fin by simp
  then have w2L: "w2 < L" and w1L: "w1 < L" and L: "0 < L" using n0 w2 w1 by simp_all
  \<comment> \<open>the pending element\<close>
  have x1: "r1 = (int (length (fst t1)), write_at out 0 (fst t1), snd t1)"
  proof (cases "elem \<noteq> ELEM_NONE")
    case True
    have "fst (emit_element ?dec1 elem out L 0) < L"
      using s1 True w1L by (simp add: r1_def)
    then have "0 + int (length (fst (element_text ?dec1 elem))) < L"
      using emit_element_tight [OF ok1 _ L, of elem out] by simp
    then show ?thesis
      using emit_element_roomy [OF ok1, of 0 elem L out] True by (simp add: r1_def t1_def)
  next
    case False
    then show ?thesis by (simp add: r1_def t1_def)
  qed
  define t2 where "t2 = (if pat_n > 0
                         then (let (cs, f1) = fed_text (out_filter dec3) pat_out pat_n 0
                               in (cs, dec3\<lparr>out_filter := f1\<rparr>))
                         else ([], dec3))"
  \<comment> \<open>the pending pattern\<close>
  have x2: "r2 = (w1 + int (length (fst t2)), write_at out1 w1 (fst t2), snd t2)"
  proof (cases "pat_n > 0")
    case True
    let ?ft = "fed_text (out_filter dec3) pat_out pat_n 0"
    have "w1 + fst (feed_loop (out_filter dec3) pat_out pat_n out1 w1 (L - w1) 0 0) = w2"
      using s2 True by (simp add: r2_def output_filter_feed_def split_beta)
    then have "fst (feed_loop (out_filter dec3) pat_out pat_n out1 w1 (L - w1) 0 0) < L - w1"
      using w2L by simp
    then have room: "0 + int (length (fst ?ft)) < L - w1"
      using feed_loop_tight [OF ok3, of 0 pat_out pat_n out1 w1 "L - w1" 0] by simp
    have "feed_loop (out_filter dec3) pat_out pat_n out1 w1 (L - w1) 0 0
            = (0 + int (length (fst ?ft)), write_at out1 (w1 + 0) (fst ?ft), snd ?ft)"
      using feed_loop_roomy [OF ok3 _ room, of out1 w1] by simp
    then show ?thesis
      using True by (simp add: r2_def t2_def output_filter_feed_def split_beta)
  next
    case False
    then show ?thesis by (simp add: r2_def t2_def)
  qed
  \<comment> \<open>the pending word\<close>
  have "fst (emit_word ?f4 out2 w2 (L - w2)) < L - w2" using e total by simp
  then have "int (length (emitted_word ?f4)) < L - w2"
    using emit_word_tight [of ?f4 "L - w2" out2 w2] a2 w2 by simp
  then have x3: "emit_word ?f4 out2 w2 (L - w2)
                   = (int (length (emitted_word ?f4)), write_at out2 w2 (emitted_word ?f4), after_emit ?f4)"
    using emit_word_roomy [of ?f4 "L - w2" out2 w2] a2 by simp
  have d2: "dec2 = snd t1" using x1 s1 by simp
  have d4: "dec4 = snd t2" using x2 s2 by simp
  have ft: "finalize_text ops dec
              = (fst t1 @ fst t2 @ emitted_word ?f4,
                 dec4\<lparr>out_filter := (after_emit ?f4)\<lparr>word_len := 0\<rparr>\<rparr>)"
    using tf pf [unfolded d2] unfolding d4
    by (cases "elem \<noteq> ELEM_NONE"; cases "pat_n > 0")
       (simp_all add: finalize_text_def t1_def t2_def Let_def split_beta)
  have eq1: "w1 = int (length (fst t1))" "out1 = write_at out 0 (fst t1)"
    using x1 s1 by simp_all
  have eq2: "w2 = w1 + int (length (fst t2))" "out2 = write_at out1 w1 (fst t2)"
    using x2 s2 by simp_all
  have eq3: "n = int (length (emitted_word ?f4))" "out3 = write_at out2 w2 (emitted_word ?f4)"
            "f5 = after_emit ?f4"
    using x3 e by simp_all
  have "out3 = write_at out 0 (fst t1 @ fst t2 @ emitted_word ?f4)"
    unfolding eq3 eq2 eq1
    using write_at_append [of out 0 "fst t1" "fst t2"]
      write_at_append [of out 0 "fst t1 @ fst t2" "emitted_word ?f4"]
    by simp
  then show ?thesis
    unfolding fin ft using eq1 eq2 eq3 by simp
qed

lemma decode_chunks_exact:
  "filter_ok (out_filter dec) \<Longrightarrow> 0 \<le> L \<Longrightarrow> decode_chunks ops dec cs L = (bs, True) \<Longrightarrow>
   bs = heard_chunks ops dec cs"
proof (induction cs arbitrary: dec bs)
  case Nil
  then have "fst (cw_decoder_finalize ops dec zero_buf L) < L"
    by (simp add: Let_def)
  then have "cw_decoder_finalize ops dec zero_buf L
               = (int (length (fst (finalize_text ops dec))), write_at zero_buf 0 (fst (finalize_text ops dec)),
                  snd (finalize_text ops dec))"
    using finalize_exact [OF Nil.prems(1) _ Nil.prems(2)] by simp
  then show ?case
    using Nil.prems(3) by (simp add: Let_def out_bytes_write_at)
next
  case (Cons c cs)
  let ?r = "cw_decoder_process ops dec c zero_buf L"
  obtain bs' fits where rest: "decode_chunks ops (snd (snd ?r)) cs L = (bs', fits)"
    by (cases "decode_chunks ops (snd (snd ?r)) cs L")
  have fit: "fst ?r < L" and fits: "fits" and bs: "bs = out_bytes ?r @ bs'"
    using Cons.prems(3) rest by (simp_all add: Let_def)
  have ex: "?r = (int (length (fst (heard ops dec c))), write_at zero_buf 0 (fst (heard ops dec c)),
                  snd (heard ops dec c))"
    using process_exact [OF Cons.prems(1) fit] .
  have ok: "filter_ok (out_filter (snd (snd ?r)))"
    unfolding ex using heard_ok [OF Cons.prems(1)] by simp
  have "bs' = heard_chunks ops (snd (snd ?r)) cs"
    using Cons.IH [OF ok Cons.prems(2)] rest fits by simp
  then show ?case
    unfolding bs by (simp add: ex out_bytes_write_at)
qed

lemma split_segments_Nil [simp]: "split_segments [] = []"
  by (subst split_segments.simps) simp

lemma split_segments_Cons:
  "xs \<noteq> [] \<Longrightarrow> split_segments xs = take 4096 xs # split_segments (drop 4096 xs)"
  by (subst split_segments.simps) simp

lemma concat_split_segments: "concat (split_segments xs) = xs"
proof (induction xs rule: split_segments.induct)
  case (1 xs)
  then show ?case
    by (cases "xs = []") (simp_all add: split_segments_Cons)
qed

lemma concat_segments: "concat (segments cs) = concat cs"
  by (induction cs) (simp_all add: segments_def concat_split_segments)

lemma split_segments_append:
  "4096 dvd length a \<Longrightarrow> split_segments (a @ b) = split_segments a @ split_segments b"
proof (induction a rule: split_segments.induct)
  case (1 a)
  show ?case
  proof (cases "a = []")
    case True
    then show ?thesis by simp
  next
    case False
    then have len: "4096 \<le> length a"
      using "1.prems" by (auto dest: dvd_imp_le)
    have dv: "4096 dvd length (drop 4096 a)"
      using "1.prems" len by (simp add: dvd_diff_nat)
    have "split_segments (a @ b) = take 4096 a # split_segments (drop 4096 a @ b)"
      using False len by (simp add: split_segments_Cons)
    also have "\<dots> = take 4096 a # split_segments (drop 4096 a) @ split_segments b"
      using "1.IH" [OF False dv] by simp
    finally show ?thesis
      using False by (simp add: split_segments_Cons)
  qed
qed

lemma aligned_segments: "aligned cs \<Longrightarrow> segments cs = segments [concat cs]"
proof (induction cs)
  case Nil
  then show ?case by (simp add: segments_def)
next
  case (Cons c cs)
  show ?case
  proof (cases "cs = []")
    case True
    then show ?thesis by (simp add: segments_def)
  next
    case False
    then have c: "4096 dvd length c" and al: "aligned cs"
      using Cons.prems by (simp_all add: aligned_def)
    show ?thesis
      using Cons.IH [OF al] split_segments_append [OF c, of "concat cs"]
      by (simp add: segments_def)
  qed
qed

lemma heard_chunks_Nil_chunk: "heard_chunks ops dec ([] # cs) = heard_chunks ops dec cs"
  by (simp add: heard_Nil)

lemma heard_chunks_cut:
  "heard_chunks ops dec (xs # cs) = heard_chunks ops dec (take 4096 xs # drop 4096 xs # cs)"
proof (cases "length xs \<le> 4096")
  case True
  then show ?thesis by (simp add: heard_Nil)
next
  case False
  then have "4096 dvd length (take 4096 xs)" by simp
  from heard_append [OF this, of ops dec "drop 4096 xs"]
  show ?thesis by simp
qed

lemma heard_chunks_split:
  "heard_chunks ops dec (xs # cs) = heard_chunks ops dec (split_segments xs @ cs)"
proof (induction xs arbitrary: dec rule: split_segments.induct)
  case (1 xs)
  show ?case
  proof (cases "xs = []")
    case True
    then show ?thesis by (simp add: heard_Nil)
  next
    case False
    have "heard_chunks ops dec (xs # cs) = heard_chunks ops dec (take 4096 xs # drop 4096 xs # cs)"
      by (rule heard_chunks_cut)
    also have "\<dots> = heard_chunks ops dec (take 4096 xs # split_segments (drop 4096 xs) @ cs)"
      using "1.IH" [OF False] by simp
    finally show ?thesis
      using False by (simp add: split_segments_Cons)
  qed
qed

lemma heard_chunks_segments: "heard_chunks ops dec cs = heard_chunks ops dec (segments cs)"
proof (induction cs arbitrary: dec)
  case Nil
  then show ?case by (simp add: segments_def)
next
  case (Cons c cs)
  have "heard_chunks ops dec (c # cs) = heard_chunks ops dec (c # segments cs)"
    using Cons.IH by simp
  also have "\<dots> = heard_chunks ops dec (split_segments c @ segments cs)"
    by (rule heard_chunks_split)
  finally show ?case by (simp add: segments_def)
qed

lemma real_ops_code [code]:
  "real_ops =
     \<lparr>f_add = (+), f_sub = (-), f_mul = (*), f_div = (/),
      f_lt = (<), f_le = (\<le>),
      f_lit = (\<lambda>m e. if e \<ge> 0 then of_int m * 10 ^ nat e else of_int m / 10 ^ nat (- e)),
      f_of_int = of_int,
      f_to_int = (\<lambda>x. if x \<ge> 0 then \<lfloor>x\<rfloor> else - \<lfloor>- x\<rfloor>),
      f_fabs = abs, f_log = real_log, f_exp = real_exp, f_sqrt = real_sqrt,
      f_ln2 = real_ln2, f_pi = real_pi\<rparr>"
  by (simp add: real_ops_def real_log_def real_exp_def real_sqrt_def real_pi_def real_ln2_def)

lemma floor_inv_pi: "\<lfloor>1 / pi\<rfloor> = 0"
proof -
  have "0 \<le> 1 / pi" by simp
  moreover have "1 / pi < 1" using pi_ge_two by simp
  ultimately show ?thesis by (simp add: floor_eq_iff)
qed

lemma chunk_window: "envelope_window real_ops 100 (1/200) 1 = 5"
proof -
  have "100 / (100 * pi) = 1 / pi" by simp
  then show ?thesis
    using floor_inv_pi by (simp add: envelope_window_def real_ops_def Let_def)
qed

lemma chunk_create:
  "cw_decoder_create real_ops db dl True (chunk_config off) = Some (chunk_decoder off)"
  by (simp add: chunk_decoder_def cw_decoder_create_def chunk_config_def
      cw_config_init_def envelope_init_def)
     (simp add: real_ops_def chunk_window [unfolded real_ops_def])

text \<open>
  C2.  \<open>decode_chunks ops dec cs L\<close> calls \<open>cw_decoder_process\<close> on each chunk of \<open>cs\<close> in
  order and then \<open>cw_decoder_finalize\<close>, each call with a fresh buffer of \<open>L\<close> bytes; it
  returns the concatenated bytes and whether every call wrote fewer than \<open>L\<close> bytes (no
  call filled its buffer, so nothing was cut off).  For a decoder made by
  \<open>cw_decoder_create\<close>, in every float arithmetic: two partitions that cut the audio into
  the same sequence of segments give the same bytes, if no call fills its buffer.  Two
  partitions of the same audio whose chunks, except the last, have lengths that are
  multiples of 4096 are a case of it (\<open>aligned_segments\<close>).  Where the segments differ the
  bytes depend on the chunk boundaries.
\<close>

theorem same_segments_agree:
  assumes "cw_decoder_create ops db dl a c = Some dec"
    and "segments cs1 = segments cs2"
    and "0 \<le> L1" and "0 \<le> L2"
    and "decode_chunks ops dec cs1 L1 = (bs1, True)"
    and "decode_chunks ops dec cs2 L2 = (bs2, True)"
  shows "bs1 = bs2"
proof -
  have ok: "filter_ok (out_filter dec)"
    using create_filter_ok [OF assms(1)] by simp
  have "bs1 = heard_chunks ops dec (segments cs1)"
    using decode_chunks_exact [OF ok assms(3,5)] heard_chunks_segments [of ops dec cs1] by simp
  moreover have "bs2 = heard_chunks ops dec (segments cs2)"
    using decode_chunks_exact [OF ok assms(4,6)] heard_chunks_segments [of ops dec cs2] by simp
  ultimately show ?thesis using assms(2) by simp
qed

lemma real_ops_sel:
  "f_add real_ops = (+)" "f_sub real_ops = (-)" "f_mul real_ops = (*)" "f_div real_ops = (/)"
  "f_lt real_ops = (<)" "f_le real_ops = (\<le>)" "f_of_int real_ops = of_int" "f_fabs real_ops = abs"
  "f_lit real_ops m e = (if e \<ge> 0 then of_int m * 10 ^ nat e else of_int m / 10 ^ nat (- e))"
  by (simp_all add: real_ops_def)

lemma key_audio_nth:
  "0 \<le> i \<Longrightarrow> i < 4096 \<Longrightarrow> key_audio ! nat i = key_data i"
  by (auto simp: key_audio_def key_data_def nth_append nat_less_iff)

lemma mp_zero_run:
  assumes "0 \<le> i" and "i \<le> m" and "m \<le> n" and "0 < w"
    and "\<forall>j. 0 \<le> j \<and> j < m \<longrightarrow> data j = 0" and "\<forall>j. buf j = 0"
  shows "mp_sample_loop real_ops w inv_w buf buf_n n i 0 data
           = mp_sample_loop real_ops w inv_w buf buf_n n m 0 data"
  using assms(1,2)
proof (induction k \<equiv> "nat (m - i)" arbitrary: i)
  case 0
  then have "i = m" by simp
  then show ?case by simp
next
  case (Suc k)
  then have lt: "i < m" by simp
  then have d: "data i = 0" and d0: "data 0 = 0"
    using assms(5) Suc.prems by auto
  have old: "data (i - w) = 0" if "0 \<le> i - w"
    using that assms(4,5) lt by auto
  have upd: "data(i := 0) = data"
    using d by (simp add: fun_upd_idem)
  have "mp_sample_loop real_ops w inv_w buf buf_n n i 0 data
          = mp_sample_loop real_ops w inv_w buf buf_n n (i + 1) 0 data"
    using lt assms(3,6) d d0 old upd
    by (subst mp_sample_loop.simps) (simp add: real_ops_def Let_def)
  also have "\<dots> = mp_sample_loop real_ops w inv_w buf buf_n n m 0 data"
    using Suc.hyps(1) [of "i + 1"] Suc.hyps(2) Suc.prems lt by simp
  finally show ?case .
qed

lemma mp_key_run:
  "mp_sample_loop real_ops 5 (1/5) (\<lambda>_. 0) 0 4096 0 0 key_data = (1, key_data(4095 := 1/5))"
proof -
  have "mp_sample_loop real_ops 5 (1/5) (\<lambda>_. 0) 0 4096 0 0 key_data
          = mp_sample_loop real_ops 5 (1/5) (\<lambda>_. 0) 0 4096 4095 0 key_data"
    by (rule mp_zero_run) (simp_all add: key_data_def)
  also have "\<dots> = mp_sample_loop real_ops 5 (1/5) (\<lambda>_. 0) 0 4096 4096 1 (key_data(4095 := 1/5))"
    by (subst mp_sample_loop.simps) (simp add: real_ops_def Let_def key_data_def)
  also have "\<dots> = (1, key_data(4095 := 1/5))"
    by (subst mp_sample_loop.simps) simp
  finally show ?thesis .
qed

lemma mp_init_5:
  "multipass_init real_ops 1 5
     = \<lparr>n_passes = 1, window_size = 5, buffers = (\<lambda>_ _. 0), buf_len = (\<lambda>_. 0), running_sum = (\<lambda>_. 0)\<rparr>"
  by (simp add: multipass_init_def MULTIPASS_MAX_PASSES_def MULTIPASS_MAX_WINDOW_def real_ops_def)

lemma mp_pass_key:
  "mp_pass real_ops (multipass_init real_ops 1 5) 0 key_data 4096 = (key_mp, key_data(4095 := 1/5))"
proof -
  have inv: "f_div real_ops (f_lit real_ops 1 0) (f_of_int real_ops 5) = 1/5"
    and s0: "f_mul real_ops (key_data 0) (f_of_int real_ops 4) = 0"
    by (simp_all add: real_ops_def key_data_def)
  have lp: "mp_sample_loop real_ops 5 (1/5) (\<lambda>_. 0) 0 4096 0
              (f_mul real_ops (key_data 0) (f_of_int real_ops 4)) key_data
            = (1, key_data(4095 := 1/5))"
    unfolding s0 by (rule mp_key_run)
  have b: "(\<lambda>j. if 0 \<le> j \<and> j < 4 then (key_data(4095 := 1/5)) (4092 + j) else (0::real))
             = (\<lambda>j. if j = 3 then 1/5 else 0)"
    by (auto simp: key_data_def fun_eq_iff)
  show ?thesis
    unfolding mp_pass_def mp_init_5 Let_def
    by (simp add: inv lp MULTIPASS_MAX_WINDOW_def key_mp_def fun_eq_iff) (auto simp: key_data_def)
qed

lemma multipass_key:
  "multipass_process real_ops (multipass_init real_ops 1 5) key_data 4096
     = (key_mp, key_data(4095 := 1/5))"
proof -
  have n: "n_passes (multipass_init real_ops 1 5) = 1" by (simp add: mp_init_5)
  have "mp_pass_loop real_ops (multipass_init real_ops 1 5) 0 key_data 4096
          = mp_pass_loop real_ops key_mp 1 (key_data(4095 := 1/5)) 4096"
    by (subst mp_pass_loop.simps) (simp add: n mp_pass_key)
  also have "\<dots> = (key_mp, key_data(4095 := 1/5))"
    by (subst mp_pass_loop.simps) (simp add: key_mp_def)
  finally show ?thesis by (simp add: multipass_process_def)
qed

lemma peak_zero_run:
  assumes "i \<le> m" and "m \<le> chunk" and "\<forall>j. i \<le> j \<and> j < m \<longrightarrow> tmp j = 0"
  shows "peak_loop real_ops tmp chunk i 0 = peak_loop real_ops tmp chunk m 0"
  using assms(1,3)
proof (induction k \<equiv> "nat (m - i)" arbitrary: i)
  case 0
  then have "i = m" by simp
  then show ?case by simp
next
  case (Suc k)
  then have lt: "i < m" by simp
  then have d: "tmp i = 0" using Suc.prems by simp
  have "peak_loop real_ops tmp chunk i 0 = peak_loop real_ops tmp chunk (i + 1) 0"
    using lt assms(2) d by (subst peak_loop.simps) (simp add: real_ops_def)
  also have "\<dots> = peak_loop real_ops tmp chunk m 0"
    using Suc.hyps(1) [of "i + 1"] Suc.hyps(2) Suc.prems lt by simp
  finally show ?case .
qed

lemma peak_key: "peak_loop real_ops (key_data(4095 := 1/5)) 4096 0 0 = 1/5"
proof -
  have "peak_loop real_ops (key_data(4095 := 1/5)) 4096 0 0
          = peak_loop real_ops (key_data(4095 := 1/5)) 4096 4095 0"
    by (rule peak_zero_run) (simp_all add: key_data_def)
  also have "\<dots> = peak_loop real_ops (key_data(4095 := 1/5)) 4096 4096 (1/5)"
    by (subst peak_loop.simps) (simp add: real_ops_def)
  also have "\<dots> = 1/5"
    by (subst peak_loop.simps) simp
  finally show ?thesis .
qed

lemma hysteresis_zero_run:
  assumes "i \<le> m" and "m \<le> chunk" and "\<forall>j. i \<le> j \<and> j < m \<longrightarrow> tmp j = 0" and "0 < on_thr"
    and "\<forall>j. i \<le> j \<and> j < m \<longrightarrow> on_off (processed + j) = 0"
  shows "hysteresis_loop real_ops tmp on_thr off_thr processed chunk i 0 on_off
           = hysteresis_loop real_ops tmp on_thr off_thr processed chunk m 0 on_off"
  using assms(1,3,5)
proof (induction k \<equiv> "nat (m - i)" arbitrary: i)
  case 0
  then have "i = m" by simp
  then show ?case by simp
next
  case (Suc k)
  then have lt: "i < m" by simp
  then have d: "tmp i = 0" and o: "on_off (processed + i) = 0"
    using Suc.prems by simp_all
  have upd: "on_off(processed + i := 0) = on_off"
    using o by (simp add: fun_upd_idem)
  have "hysteresis_loop real_ops tmp on_thr off_thr processed chunk i 0 on_off
          = hysteresis_loop real_ops tmp on_thr off_thr processed chunk (i + 1) 0 on_off"
    using lt assms(2,4) d upd by (subst hysteresis_loop.simps) (simp add: real_ops_def Let_def)
  also have "\<dots> = hysteresis_loop real_ops tmp on_thr off_thr processed chunk m 0 on_off"
    using Suc.hyps(1) [of "i + 1"] Suc.hyps(2) Suc.prems lt by simp
  finally show ?case .
qed

lemma hysteresis_key:
  "hysteresis_loop real_ops (key_data(4095 := 1/5)) (1/10) (2/25) 0 4096 0 0 (\<lambda>_. 0)
     = (1, (\<lambda>_. 0)(4095 := 1))"
proof -
  have "hysteresis_loop real_ops (key_data(4095 := 1/5)) (1/10) (2/25) 0 4096 0 0 (\<lambda>_. 0)
          = hysteresis_loop real_ops (key_data(4095 := 1/5)) (1/10) (2/25) 0 4096 4095 0 (\<lambda>_. 0)"
    by (rule hysteresis_zero_run) (simp_all add: key_data_def)
  also have "\<dots> = hysteresis_loop real_ops (key_data(4095 := 1/5)) (1/10) (2/25) 0 4096 4096 1
                       ((\<lambda>_. 0)(4095 := 1))"
    by (subst hysteresis_loop.simps) (simp add: real_ops_def Let_def)
  also have "\<dots> = (1, (\<lambda>_. 0)(4095 := 1))"
    by (subst hysteresis_loop.simps) simp
  finally show ?thesis .
qed

lemma envelope_segment_key:
  "envelope_segment real_ops (envelope (chunk_decoder (2/5))) key_data (\<lambda>_. 0) 0 4096
     = (key_env, (\<lambda>_. 0)(4095 := 1))"
proof -
  have t0: "(\<lambda>i. if 0 \<le> i \<and> i < 4096 then f_fabs real_ops (key_data (0 + i)) else f_lit real_ops 0 0)
              = key_data"
    by (auto simp: key_data_def real_ops_def fun_eq_iff)
  show ?thesis
    unfolding envelope_segment_def t0 Let_def
    by (simp add: chunk_decoder_def multipass_key real_ops_sel peak_key hysteresis_key key_env_def)
qed

lemma envelope_key:
  "envelope_process real_ops (envelope (chunk_decoder (2/5))) key_data (\<lambda>_. 0) 4096
     = (key_env, (\<lambda>_. 0)(4095 := 1))"
proof -
  have "envelope_loop real_ops (envelope (chunk_decoder (2/5))) key_data (\<lambda>_. 0) 4096 0
          = envelope_loop real_ops key_env key_data ((\<lambda>_. 0)(4095 := 1)) 4096 4096"
    by (subst envelope_loop.simps) (simp add: envelope_segment_key)
  also have "\<dots> = (key_env, (\<lambda>_. 0)(4095 := 1))"
    by (subst envelope_loop.simps) simp
  finally show ?thesis by (simp add: envelope_process_def)
qed

lemma silent_sample:
  assumes "prev_on t = 0"
  shows "timing_process_sample ops t 0 = (ELEM_NONE, t\<lparr>off_dur := off_dur t + 1\<rparr>)"
  using assms
  by (cases t) (simp add: timing_process_sample_def count_sample_def mark_block_def gap_block_def
      mark_guard_def gap_guard_def)

lemma first_mark_sample:
  assumes "prev_on t = 0" and "seen_signal t = 0"
  shows "timing_process_sample ops t 1
           = (ELEM_NONE, t\<lparr>on_dur := on_dur t + 1, off_dur := 0, prev_on := 1\<rparr>)"
  using assms
  by (cases t) (simp add: timing_process_sample_def count_sample_def mark_block_def gap_block_def
      mark_guard_def gap_guard_def)

lemma samples_zero_run:
  assumes "i \<le> m" and "m \<le> chunk" and "\<forall>j. i \<le> j \<and> j < m \<longrightarrow> on_off j = 0"
    and "prev_on (timing dec) = 0"
  shows "heard_samples ops dec on_off chunk i
           = heard_samples ops (dec\<lparr>timing := (timing dec)\<lparr>off_dur := off_dur (timing dec) + (m - i)\<rparr>\<rparr>)
               on_off chunk m"
  using assms(1,3,4)
proof (induction k \<equiv> "nat (m - i)" arbitrary: i dec)
  case 0
  then have "i = m" by simp
  then show ?case by simp
next
  case (Suc k)
  then have lt: "i < m" by simp
  then have o: "on_off i = 0" using Suc.prems by simp
  let ?d1 = "dec\<lparr>timing := (timing dec)\<lparr>off_dur := off_dur (timing dec) + 1\<rparr>\<rparr>"
  have st: "sample_text ops dec (on_off i) = ([], ?d1)"
    unfolding o sample_text_def silent_sample [OF Suc.prems(3)] by (simp add: ELEM_NONE_def)
  have "heard_samples ops dec on_off chunk i = heard_samples ops ?d1 on_off chunk (i + 1)"
    using lt assms(2) by (subst heard_samples_unfold) (simp add: st)
  also have "\<dots> = heard_samples ops
                      (?d1\<lparr>timing := (timing ?d1)\<lparr>off_dur := off_dur (timing ?d1) + (m - (i + 1))\<rparr>\<rparr>)
                      on_off chunk m"
    using Suc.hyps(1) [of "i + 1" ?d1] Suc.hyps(2) Suc.prems lt by simp
  also have "?d1\<lparr>timing := (timing ?d1)\<lparr>off_dur := off_dur (timing ?d1) + (m - (i + 1))\<rparr>\<rparr>
               = dec\<lparr>timing := (timing dec)\<lparr>off_dur := off_dur (timing dec) + (m - i)\<rparr>\<rparr>"
    by simp
  finally show ?case .
qed

lemma segment_front_key:
  "segment_front real_ops (chunk_decoder (2/5)) (\<lambda>i. key_audio ! nat i) 0 4096
     = ((chunk_decoder (2/5))\<lparr>envelope := key_env\<rparr>, (\<lambda>_. 0)(4095 := 1))"
proof -
  have w: "(\<lambda>i. if 0 \<le> i \<and> i < 4096 then key_audio ! nat (0 + i) else f_lit real_ops 0 0) = key_data"
  proof (rule ext)
    fix i :: int
    show "(if 0 \<le> i \<and> i < 4096 then key_audio ! nat (0 + i) else f_lit real_ops 0 0) = key_data i"
    proof (cases "0 \<le> i \<and> i < 4096")
      case True
      then show ?thesis using key_audio_nth [of i] by simp
    next
      case False
      then show ?thesis by (auto simp: real_ops_sel key_data_def)
    qed
  qed
  have e: "envelope (chunk_decoder (2/5)) = envelope (chunk_decoder (2/5))" ..
  have u: "use_bandpass (chunk_decoder (2/5)) = 0"
    by (simp add: chunk_decoder_def)
  show ?thesis
    unfolding segment_front_def w Let_def u by (simp add: envelope_key)
qed

lemma samples_key:
  "heard_samples real_ops ((chunk_decoder (2/5))\<lparr>envelope := key_env\<rparr>) ((\<lambda>_. 0)(4095 := 1)) 4096 0
     = ([], keyed_decoder)"
proof -
  let ?d = "(chunk_decoder (2/5))\<lparr>envelope := key_env\<rparr>"
  let ?o = "(\<lambda>_. 0::int)(4095 := 1)"
  let ?d1 = "?d\<lparr>timing := (timing ?d)\<lparr>off_dur := off_dur (timing ?d) + (4095 - 0)\<rparr>\<rparr>"
  have t: "prev_on (timing ?d) = 0" "seen_signal (timing ?d) = 0" "on_dur (timing ?d) = 0"
    by (simp_all add: chunk_decoder_def timing_init_def)
  have "heard_samples real_ops ?d ?o 4096 0 = heard_samples real_ops ?d1 ?o 4096 4095"
    by (rule samples_zero_run) (simp_all add: chunk_decoder_def timing_init_def)
  also have "\<dots> = heard_samples real_ops keyed_decoder ?o 4096 4096"
  proof -
    have p: "prev_on (timing ?d1) = 0" "seen_signal (timing ?d1) = 0"
      using t by simp_all
    have "sample_text real_ops ?d1 1 = ([], keyed_decoder)"
      unfolding sample_text_def first_mark_sample [OF p]
      using t by (simp add: ELEM_NONE_def keyed_decoder_def)
    then show ?thesis
      by (subst heard_samples_unfold) simp
  qed
  also have "\<dots> = ([], keyed_decoder)"
    by (subst heard_samples_unfold) simp
  finally show ?thesis .
qed

lemma heard_key: "heard real_ops (chunk_decoder (2/5)) key_audio = ([], keyed_decoder)"
proof -
  have n: "int (length key_audio) = 4096"
    by (simp add: key_audio_def)
  have st: "segment_text real_ops (chunk_decoder (2/5)) (\<lambda>i. key_audio ! nat i) 4096 0 = ([], keyed_decoder)"
    by (simp add: segment_text_def segment_chunk_def segment_front_key samples_key)
  have "heard_segments real_ops (chunk_decoder (2/5)) (\<lambda>i. key_audio ! nat i) 4096 0
          = heard_segments real_ops keyed_decoder (\<lambda>i. key_audio ! nat i) 4096 4096"
    by (subst heard_segments_unfold) (simp add: st segment_chunk_def)
  also have "\<dots> = ([], keyed_decoder)"
    by (subst heard_segments_unfold) simp
  finally show ?thesis
    by (simp add: heard_def n)
qed

lemma process_roomy:
  assumes "filter_ok (out_filter dec)" and "int (length (fst (heard ops dec audio))) < L"
  shows "cw_decoder_process ops dec audio out L
           = (int (length (fst (heard ops dec audio))), write_at out 0 (fst (heard ops dec audio)),
              snd (heard ops dec audio))"
proof (cases "audio = []")
  case True
  then show ?thesis by (simp add: cw_decoder_process_def heard_Nil)
next
  case False
  have L: "0 < L" using assms(2) by linarith
  show ?thesis
    using False L segment_loop_roomy [OF assms(1), of 0 ops "\<lambda>i. audio ! nat i" "int (length audio)" 0 L out]
      assms(2)
    by (simp add: cw_decoder_process_def heard_def Let_def)
qed

lemma keyed_ok: "filter_ok (out_filter keyed_decoder)"
  by (simp add: keyed_decoder_def chunk_decoder_def output_filter_init_def filter_ok_def)

lemma chunk_ok: "filter_ok (out_filter (chunk_decoder off))"
  by (simp add: chunk_decoder_def output_filter_init_def filter_ok_def)

lemma keyed_run: "decode_chunks real_ops keyed_decoder [[0, 100]] 8 = (''I'', True)"
  by code_simp

lemma keyed_fits: "fst (cw_decoder_process real_ops keyed_decoder [0, 100] zero_buf 8) < 8"
  by code_simp

lemma key_process:
  "cw_decoder_process real_ops (chunk_decoder (2/5)) key_audio zero_buf 8 = (0, zero_buf, keyed_decoder)"
  using process_roomy [OF chunk_ok, of real_ops "2/5" key_audio 8 zero_buf]
  by (simp add: heard_key)

lemma key_process_joined:
  "cw_decoder_process real_ops (chunk_decoder (2/5)) (key_audio @ [0, 100]) zero_buf 8
     = cw_decoder_process real_ops keyed_decoder [0, 100] zero_buf 8"
proof -
  have dv: "4096 dvd length key_audio"
    by (simp add: key_audio_def)
  have h: "heard real_ops (chunk_decoder (2/5)) (key_audio @ [0, 100]) = heard real_ops keyed_decoder [0, 100]"
    using heard_append [OF dv, of real_ops "chunk_decoder (2/5)" "[0, 100]"] by (simp add: heard_key)
  have e: "cw_decoder_process real_ops keyed_decoder [0, 100] zero_buf 8
             = (int (length (fst (heard real_ops keyed_decoder [0, 100]))),
                write_at zero_buf 0 (fst (heard real_ops keyed_decoder [0, 100])),
                snd (heard real_ops keyed_decoder [0, 100]))"
    using process_exact [OF keyed_ok keyed_fits] .
  then have "int (length (fst (heard real_ops keyed_decoder [0, 100]))) < 8"
    using keyed_fits by simp
  then show ?thesis
    using process_roomy [OF chunk_ok, of real_ops "2/5" "key_audio @ [0, 100]" 8 zero_buf]
    unfolding h e by simp
qed

text \<open>
  The chunk boundary after the 4096 samples of \<open>key_audio\<close> falls between a keyed sample and
  its release: the prior state of the hysteresis, the running sum and the saved samples of
  the moving average, the peak level and the mark duration all cross it.  As two chunks and
  as one chunk of 4098 samples the decoder writes \<open>I\<close>.
\<close>

theorem same_segments_agree_witness:
  "cw_decoder_create real_ops (\<lambda>_ _ _ _. iir_zero real_ops) (\<lambda>_ _ _. iir_zero real_ops) True
       (chunk_config (2/5)) = Some (chunk_decoder (2/5)) \<and>
   length key_audio = 4096 \<and>
   segments [key_audio, [0, 100]] = segments [key_audio @ [0, 100]] \<and>
   decode_chunks real_ops (chunk_decoder (2/5)) [key_audio, [0, 100]] 8 = (''I'', True) \<and>
   decode_chunks real_ops (chunk_decoder (2/5)) [key_audio @ [0, 100]] 8 = (''I'', True)"
proof -
  have n: "length key_audio = 4096"
    by (simp add: key_audio_def)
  have al: "aligned [key_audio, [0, 100]]"
    by (simp add: aligned_def n)
  have s: "segments [key_audio, [0, 100]] = segments [key_audio @ [0, 100]]"
    using aligned_segments [OF al] by simp
  have r1: "decode_chunks real_ops (chunk_decoder (2/5)) [key_audio, [0, 100]] 8 = (''I'', True)"
    using keyed_run by (simp add: key_process out_bytes_def)
  have j: "decode_chunks real_ops (chunk_decoder (2/5)) [key_audio @ [0, 100]] 8
             = decode_chunks real_ops keyed_decoder [[0, 100]] 8"
    by (simp add: key_process_joined)
  then have r2: "decode_chunks real_ops (chunk_decoder (2/5)) [key_audio @ [0, 100]] 8
                   = (fst (decode_chunks real_ops (chunk_decoder (2/5)) [key_audio @ [0, 100]] 8), True)"
    using keyed_run by (simp only: fst_conv)
  have "''I'' = fst (decode_chunks real_ops (chunk_decoder (2/5)) [key_audio @ [0, 100]] 8)"
    using same_segments_agree [OF chunk_create s _ _ r1 r2] by simp
  with r2 have "decode_chunks real_ops (chunk_decoder (2/5)) [key_audio @ [0, 100]] 8 = (''I'', True)"
    by (simp only:)
  with chunk_create n s r1 show ?thesis
    by (simp only: simp_thms)
qed

text \<open>
  With the default thresholds (on 0.5, off 0.4) the three samples 1, 0, 100 decode to
  nothing when they are one chunk, and to \<open>I\<close> when the first sample is a chunk of its own:
  the envelope detector tracks the peak chunk by chunk, so the lone first sample is keyed
  on against its own peak 0.8, and released by the peak 20.64 of the second chunk; as one
  chunk the peak is 20.48 and the first two samples stay below the threshold 10.24.
\<close>

theorem chunkings_disagree:
  "cw_decoder_create real_ops (\<lambda>_ _ _ _. iir_zero real_ops) (\<lambda>_ _ _. iir_zero real_ops) True
       (chunk_config (2/5)) = Some (chunk_decoder (2/5)) \<and>
   concat [[1, 0, 100::real]] = concat [[1], [0, 100]] \<and>
   decode_chunks real_ops (chunk_decoder (2/5)) [[1, 0, 100]] 8 = ([], True) \<and>
   decode_chunks real_ops (chunk_decoder (2/5)) [[1], [0, 100]] 8 = (''I'', True)"
proof -
  have "decode_chunks real_ops (chunk_decoder (2/5)) [[1, 0, 100]] 8 = ([], True)"
    by code_simp
  moreover have "decode_chunks real_ops (chunk_decoder (2/5)) [[1], [0, 100]] 8 = (''I'', True)"
    by code_simp
  moreover have "concat [[1, 0, 100::real]] = concat [[1], [0, 100]]"
    by simp
  ultimately show ?thesis
    using chunk_create by (simp only: simp_thms)
qed

end
